theory Spec2Isabelle
  imports Main "HOL-Library.Sublist" "HOL-Library.Multiset" "HOL-Library.AList"
begin

section \<open>Go values shared by the models\<close>

text \<open>
  Go strings are byte sequences, modelled as \<open>string\<close>. Go's \<open>int\<close> is modelled as
  \<open>int\<close>: every integer below is a slice length, a slice index or a sum of two of
  them, and a slice of pointers or strings has fewer than \<open>2^60\<close> elements, so the 64-bit
  arithmetic of the source never wraps on these values. An \<open>error\<close> value is its message;
  \<open>nil\<close> is \<open>None\<close>. A run-time panic is the value \<open>None\<close> of an option result.
\<close>

type_synonym error = string

text \<open>The slice expression \<open>xs[lo:hi]\<close>; it panics unless \<open>0 \<le> lo \<le> hi \<le> len(xs)\<close>.\<close>

definition slice :: "'a list \<Rightarrow> int \<Rightarrow> int \<Rightarrow> 'a list option" where
  "slice xs lo hi =
     (if 0 \<le> lo \<and> lo \<le> hi \<and> hi \<le> int (length xs)
      then Some (take (nat (hi - lo)) (drop (nat lo) xs)) else None)"

text \<open>The slice expression \<open>xs[lo:]\<close>, which is \<open>xs[lo:len(xs)]\<close>.\<close>

definition slice_from :: "'a list \<Rightarrow> int \<Rightarrow> 'a list option" where
  "slice_from xs lo = slice xs lo (int (length xs))"

section \<open>Library functions of Go used by the sources\<close>

subsection \<open>UTF-8 decoding and \<open>unicode.IsSpace\<close>\<close>

text \<open>
  \<open>utf8.DecodeRuneInString\<close>: the first code point of a byte string (a \<open>rune\<close>, which
  is an \<open>int32\<close>) and the number of bytes it takes. An empty string gives \<open>(RuneError, 0)\<close>, an ill-formed sequence
  \<open>(RuneError, 1)\<close>. Overlong forms, surrogates and values above \<open>U+10FFFF\<close> are
  ill-formed.
\<close>

definition RuneError :: int where
  "RuneError = 0xFFFD"

definition cont_byte :: "char \<Rightarrow> bool" where
  "cont_byte c = ((0x80::int) \<le> of_char c \<and> of_char c \<le> (0xBF::int))"

definition cont_bits :: "char \<Rightarrow> int" where
  "cont_bits c = of_char c mod 0x40"

fun DecodeRuneInString :: "string \<Rightarrow> int \<times> nat" where
  "DecodeRuneInString [] = (RuneError, 0)"
| "DecodeRuneInString (c0 # cs) =
     (let b0 = (of_char c0 :: int) in
      if b0 < 0x80 then (b0, 1)
      else if 0xC2 \<le> b0 \<and> b0 \<le> 0xDF then
        (case cs of
           c1 # _ \<Rightarrow>
             if cont_byte c1 then ((b0 mod 0x20) * 0x40 + cont_bits c1, 2) else (RuneError, 1)
         | _ \<Rightarrow> (RuneError, 1))
      else if 0xE0 \<le> b0 \<and> b0 \<le> 0xEF then
        (case cs of
           c1 # c2 # _ \<Rightarrow>
             (let b1 = (of_char c1 :: int);
                  lo = (if b0 = 0xE0 then 0xA0 else 0x80);
                  hi = (if b0 = 0xED then 0x9F else 0xBF) in
              if lo \<le> b1 \<and> b1 \<le> hi \<and> cont_byte c2
              then ((b0 mod 0x10) * 0x1000 + cont_bits c1 * 0x40 + cont_bits c2, 3)
              else (RuneError, 1))
         | _ \<Rightarrow> (RuneError, 1))
      else if 0xF0 \<le> b0 \<and> b0 \<le> 0xF4 then
        (case cs of
           c1 # c2 # c3 # _ \<Rightarrow>
             (let b1 = (of_char c1 :: int);
                  lo = (if b0 = 0xF0 then 0x90 else 0x80);
                  hi = (if b0 = 0xF4 then 0x8F else 0xBF) in
              if lo \<le> b1 \<and> b1 \<le> hi \<and> cont_byte c2 \<and> cont_byte c3
              then ((b0 mod 0x08) * 0x40000 + cont_bits c1 * 0x1000 + cont_bits c2 * 0x40
                      + cont_bits c3, 4)
              else (RuneError, 1))
         | _ \<Rightarrow> (RuneError, 1))
      else (RuneError, 1))"

text \<open>
  The runes of a string from the front, each with the bytes it was decoded from, as a
  \<open>for range\<close> over the string visits them.
\<close>

function runes :: "string \<Rightarrow> (int \<times> string) list" where
  "runes s =
     (if s = [] then []
      else (let (r, size) = DecodeRuneInString s;
                w = (if size = 0 then 1 else size) in
            (r, take w s) # runes (drop w s)))"
  by pat_completeness auto
termination
  by (relation "measure length") (auto split: if_splits)

declare runes.simps [simp del]

text \<open>\<open>unicode.IsSpace\<close>: the code points with the Unicode property White\_Space.\<close>

definition IsSpace :: "int \<Rightarrow> bool" where
  "IsSpace r =
     (r = 0x09 \<or> r = 0x0A \<or> r = 0x0B \<or> r = 0x0C \<or> r = 0x0D \<or> r = 0x20 \<or>
      r = 0x85 \<or> r = 0xA0 \<or> r = 0x1680 \<or> (0x2000 \<le> r \<and> r \<le> 0x200A) \<or>
      r = 0x2028 \<or> r = 0x2029 \<or> r = 0x202F \<or> r = 0x205F \<or> r = 0x3000)"

subsection \<open>Package \<open>strings\<close>\<close>

text \<open>
  \<open>strings.TrimSpace\<close>: the string without its leading and trailing white space, as
  Unicode defines it. An encoding of a white-space code point is well-formed, so reading
  the runes from the front, as here, or from the back, as the library does for the right
  end, removes the same bytes.
\<close>

fun space_rune :: "int \<times> string \<Rightarrow> bool" where
  "space_rune (r, bytes) = IsSpace r"

definition TrimSpace :: "string \<Rightarrow> string" where
  "TrimSpace s = concat (map snd (rev (dropWhile space_rune (rev (dropWhile space_rune (runes s))))))"

text \<open>
  \<open>strings.Split(s, sep)\<close> for a non-empty separator: the pieces of \<open>s\<close> between the
  occurrences of \<open>sep\<close>, found from the left without overlap. \<open>piece\<close> holds the bytes
  of the current piece.
\<close>

function Split_from :: "string \<Rightarrow> string \<Rightarrow> string \<Rightarrow> string list" where
  "Split_from sep piece s =
     (if sep = [] \<or> s = [] then [piece @ s]
      else if prefix sep s then piece # Split_from sep [] (drop (length sep) s)
      else Split_from sep (piece @ [hd s]) (tl s))"
  by pat_completeness auto
termination
  by (relation "measure (\<lambda>(sep, piece, s). length s)") auto

declare Split_from.simps [simp del]

text \<open>
  With the empty separator \<open>strings.Split\<close> explodes the string into its UTF-8
  sequences, an ill-formed byte becoming the encoding of \<open>U+FFFD\<close>.
\<close>

definition explode :: "string \<Rightarrow> string list" where
  "explode s =
     map (\<lambda>(r, bytes). if r = RuneError then [CHR 0xEF, CHR 0xBF, CHR 0xBD] else bytes) (runes s)"

definition Split :: "string \<Rightarrow> string \<Rightarrow> string list" where
  "Split s sep = (if sep = [] then explode s else Split_from sep [] s)"

text \<open>\<open>strings.Repeat\<close> of a one-byte string, and \<open>strings.Join\<close>.\<close>

definition Repeat :: "char \<Rightarrow> nat \<Rightarrow> string" where
  "Repeat c n = replicate n c"

fun Join :: "string list \<Rightarrow> string \<Rightarrow> string" where
  "Join [] sep = []"
| "Join [x] sep = x"
| "Join (x # y # ys) sep = x @ sep @ Join (y # ys) sep"

text \<open>
  \<open>strings.Replace(s, old, new, -1)\<close>. It returns \<open>s\<close> when \<open>old = new\<close>; otherwise it
  replaces the occurrences of \<open>old\<close> found from the left without overlap. (With an empty
  \<open>old\<close> and a non-empty \<open>new\<close> the library inserts \<open>new\<close> around every rune; the masks
  never call it so, since the replacement of an empty mask is empty.)
\<close>

function replace_from :: "string \<Rightarrow> string \<Rightarrow> string \<Rightarrow> string" where
  "replace_from old new s =
     (if old = [] \<or> s = [] then s
      else if prefix old s then new @ replace_from old new (drop (length old) s)
      else hd s # replace_from old new (tl s))"
  by pat_completeness auto
termination
  by (relation "measure (\<lambda>(old, new, s). length s)") auto

declare replace_from.simps [simp del]

definition insert_around_runes :: "string \<Rightarrow> string \<Rightarrow> string" where
  "insert_around_runes new s = new @ concat (map (\<lambda>(r, bytes). bytes @ new) (runes s))"

definition Replace_all :: "string \<Rightarrow> string \<Rightarrow> string \<Rightarrow> string" where
  "Replace_all s old new =
     (if old = new then s
      else if old = [] then insert_around_runes new s
      else replace_from old new s)"

subsection \<open>Package \<open>path/filepath\<close> on Unix\<close>

text \<open>
  \<open>filepath.Clean\<close> works on the elements between slashes: empty elements and \<open>.\<close> are
  dropped, \<open>..\<close> removes the element before it, is dropped at the root, and is kept at
  the start of a relative path. \<open>stack\<close> holds the elements kept so far.
\<close>

fun clean_elems :: "bool \<Rightarrow> string list \<Rightarrow> string list \<Rightarrow> string list" where
  "clean_elems rooted stack [] = stack"
| "clean_elems rooted stack (e # es) =
     (if e = [] \<or> e = ''.'' then clean_elems rooted stack es
      else if e = ''..'' then
        (if stack \<noteq> [] \<and> last stack \<noteq> ''..'' then clean_elems rooted (butlast stack) es
         else if \<not> rooted then clean_elems rooted (stack @ [e]) es
         else clean_elems rooted stack es)
      else clean_elems rooted (stack @ [e]) es)"

definition Clean :: "string \<Rightarrow> string" where
  "Clean path =
     (if path = [] then ''.''
      else (let rooted = (hd path = CHR ''/'');
                out = (if rooted then ''/'' else []) @
                      Join (clean_elems rooted [] (Split_from ''/'' [] path)) ''/'' in
            if out = [] then ''.'' else out))"

text \<open>
  \<open>filepath.Join\<close>: the elements from the first non-empty one on, joined by slashes and
  cleaned; the empty string when every element is empty.
\<close>

definition filepath_Join :: "string list \<Rightarrow> string" where
  "filepath_Join elem =
     (case dropWhile (\<lambda>e. e = []) elem of
        [] \<Rightarrow> []
      | es \<Rightarrow> Clean (Join es ''/''))"

text \<open>\<open>fmt.Sprintf("%d", n)\<close>: the decimal numeral of an integer.\<close>

function digits :: "nat \<Rightarrow> string" where
  "digits n = (if n < 10 then [char_of (48 + n)] else digits (n div 10) @ [char_of (48 + n mod 10)])"
  by pat_completeness auto
termination
  by (relation "measure id") auto

declare digits.simps [simp del]

definition Sprint_d :: "int \<Rightarrow> string" where
  "Sprint_d n = (if n < 0 then CHR ''-'' # digits (nat (- n)) else digits (nat n))"

section \<open>Kubernetes API objects\<close>

text \<open>
  The fields of \<open>corev1.EnvVar\<close>, \<open>corev1.VolumeMount\<close>, \<open>corev1.Volume\<close> and
  \<open>corev1.Container\<close> that the sources read or write. Field names carry a prefix where
  two structs share a name.
\<close>

record EnvVar =
  env_Name :: string
  env_Value :: string

record VolumeMount =
  vm_Name :: string
  vm_MountPath :: string

datatype VolumeSource = NoSource | EmptyDir | OtherSource string

record Volume =
  v_Name :: string
  v_VolumeSource :: VolumeSource

text \<open>
  The task builder writes to the elements of a container's \<open>VolumeMounts\<close> through a
  copy of the container, and the copy shares the backing array with the original. The
  backing arrays therefore live in a store: an address is an index into the list of the
  arrays allocated so far, and a \<open>VolumeMounts\<close> slice is \<open>None\<close> for nil or the address
  of its array (no slice of the sources is ever cut shorter than its array). The other
  slices of a container are never written in place and are plain lists.
\<close>

type_synonym addr = nat

type_synonym store = "VolumeMount list list"

record Container =
  Name :: string
  Image :: string
  Command :: "string list"
  Args :: "string list"
  WorkingDir :: string
  Env :: "EnvVar list"
  VolumeMounts :: "addr option"
  ImagePullPolicy :: string

text \<open>The elements of a \<open>VolumeMounts\<close> slice in a store.\<close>

definition load :: "store \<Rightarrow> addr option \<Rightarrow> VolumeMount list" where
  "load h s = (case s of None \<Rightarrow> [] | Some a \<Rightarrow> h ! a)"

section \<open>Sub-task scheduler\<close>

record SubTaskScheduler =
  maxConcurrentNumPerPod :: int

definition NewSubTaskScheduler :: "int \<Rightarrow> SubTaskScheduler" where
  "NewSubTaskScheduler maxConcurrentNumPerPod' =
     \<lparr>maxConcurrentNumPerPod = maxConcurrentNumPerPod'\<rparr>"

record 'a SubTaskGroup =
  tasks :: "'a list"

definition NewSubTaskGroup :: "'a list \<Rightarrow> 'a SubTaskGroup" where
  "NewSubTaskGroup ts = \<lparr>tasks = ts\<rparr>"

definition getConcurrentNum :: "SubTaskScheduler \<Rightarrow> int \<Rightarrow> int" where
  "getConcurrentNum s taskNum =
     (let maxConcurrentNum = maxConcurrentNumPerPod s in
      if maxConcurrentNum \<le> 0 then taskNum
      else if maxConcurrentNum > taskNum then taskNum
      else maxConcurrentNum)"

text \<open>
  The loop \<open>for i := 0; i < taskNum; i += concurrent\<close> of \<open>SubTaskScheduler.Schedule\<close>.
  With \<open>concurrent \<le> 0\<close> the loop of the source would not end, so the model is a partial
  function whose value \<open>None\<close> stands for a panic or for not returning.
\<close>

partial_function (option) Schedule_groups ::
  "'a list \<Rightarrow> int \<Rightarrow> int \<Rightarrow> 'a SubTaskGroup list \<Rightarrow> 'a SubTaskGroup list option" where
  "Schedule_groups ts concurrent i groups =
     (let taskNum = int (length ts) in
      if i < taskNum then
        (let start = i;
             end' = i + concurrent;
             end'' = (if end' > taskNum then taskNum else end') in
         case slice ts start end'' of
           None \<Rightarrow> None
         | Some g \<Rightarrow> Schedule_groups ts concurrent (i + concurrent) (groups @ [NewSubTaskGroup g]))
      else Some groups)"

definition SubTaskScheduler_Schedule ::
  "SubTaskScheduler \<Rightarrow> 'a list \<Rightarrow> 'a SubTaskGroup list option" where
  "SubTaskScheduler_Schedule s ts =
     (let concurrentNum = getConcurrentNum s (int (length ts)) in
      if concurrentNum > 0 then Schedule_groups ts concurrentNum 0 []
      else Some ([] @ [NewSubTaskGroup ts]))"

section \<open>Sub-tasks\<close>

datatype TaskResultStatus = TaskResultSuccess | TaskResultFailure

text \<open>
  A \<open>JobExecutor\<close> is an interface to a backend. What a sub-task observes of it are the
  values its calls return: the output and error of \<open>Output\<close>, the error of \<open>Stop\<close>, the
  time \<open>Output\<close> took, and the container and pod descriptors.
\<close>

record JobExecutor =
  exec_Output :: "string \<times> error option"
  exec_Stop :: "error option"
  exec_Elapsed :: nat
  exec_Container :: Container
  exec_Pod :: string

text \<open>
  \<open>copyArtifact\<close> is the value the artifact-copy closure returns when it is called on the
  sub-task; \<open>OnFinish\<close> tells whether the hook is set.
\<close>

record SubTask =
  task_Name :: string
  KeyEnvName :: string
  OnFinish :: bool
  exec :: JobExecutor
  isMain :: bool
  copyArtifact :: "error option"

record SubTaskResult =
  Status :: TaskResultStatus
  ElapsedTime :: nat
  Out :: string
  Err :: "error option"
  ArtifactErr :: "error option"
  res_Name :: string
  res_Container :: Container
  res_Pod :: string
  res_KeyEnvName :: string
  IsMain :: bool

text \<open>
  \<open>SubTask.Run\<close>. The log lines it writes and the deferred call (stop the executor, flush
  the log group, call \<open>OnFinish\<close>) do not touch the returned values and are left out. The
  result is the pair the source returns.
\<close>

definition SubTask_Run :: "SubTask \<Rightarrow> SubTaskResult \<times> error option" where
  "SubTask_Run t =
     (let (out, err) = exec_Output (exec t);
          result = \<lparr>Status = TaskResultSuccess,
                    ElapsedTime = exec_Elapsed (exec t),
                    Out = out,
                    Err = err,
                    ArtifactErr = None,
                    res_Name = task_Name t,
                    res_Container = exec_Container (exec t),
                    res_Pod = exec_Pod (exec t),
                    res_KeyEnvName = KeyEnvName t,
                    IsMain = isMain t\<rparr>;
          result = (if err = None then result\<lparr>Status := TaskResultSuccess\<rparr>
                    else result\<lparr>Status := TaskResultFailure\<rparr>);
          result = (case copyArtifact t of
                      Some err \<Rightarrow> result\<lparr>Status := TaskResultFailure, ArtifactErr := Some err\<rparr>
                    | None \<Rightarrow> result)
      in (result, None))"

record SubTaskResultGroup =
  results :: "SubTaskResult list"

text \<open>
  \<open>SubTaskGroup.Run\<close> starts one goroutine per sub-task and waits for all of them. Each
  goroutine runs its sub-task and then either hands the error to the error group, which
  keeps the first one, or appends the result under the mutex. The state is the pair of
  the error kept and the results appended; the goroutines act on it in the order in
  which they finish.
\<close>

fun goroutines :: "SubTask list \<Rightarrow> error option \<times> SubTaskResult list \<Rightarrow>
    error option \<times> SubTaskResult list" where
  "goroutines [] st = st"
| "goroutines (t # ts) (eg, rg) =
     (case SubTask_Run t of
        (result, Some err) \<Rightarrow> goroutines ts (if eg = None then Some err else eg, rg)
      | (result, None) \<Rightarrow> goroutines ts (eg, rg @ [result]))"

text \<open>
  \<open>finished\<close> lists the indices of the sub-tasks in the order in which their goroutines
  finish; every permutation of the indices is possible.
\<close>

definition SubTaskGroup_Run ::
  "SubTask SubTaskGroup \<Rightarrow> nat list \<Rightarrow> SubTaskResultGroup option \<times> error option" where
  "SubTaskGroup_Run g finished =
     (case goroutines (map (\<lambda>i. tasks g ! i) finished) (None, []) of
        (Some err, rg) \<Rightarrow> (None, Some err)
      | (None, rg) \<Rightarrow> (Some \<lparr>results = rg\<rparr>, None))"

section \<open>Local execution backend\<close>

text \<open>
  \<open>exec.Cmd\<close>: \<open>cmd_Env\<close> is \<open>None\<close> for the nil slice, with which the process inherits
  the environment of the caller; \<open>cmd_Err\<close> is the error of a failed path lookup.
\<close>

record Cmd =
  cmd_Path :: string
  cmd_Args :: "string list"
  cmd_Env :: "string list option"
  cmd_Dir :: string
  cmd_Err :: "error option"

text \<open>
  \<open>filepath.Base\<close>: the last element of a path, trailing slashes removed; \<open>.\<close> for the
  empty path and \<open>/\<close> for a path of slashes only.
\<close>

definition Base :: "string \<Rightarrow> string" where
  "Base path =
     (if path = [] then ''.''
      else (let p = rev (dropWhile (\<lambda>c. c = CHR ''/'') (rev path));
                b = rev (takeWhile (\<lambda>c. c \<noteq> CHR ''/'') (rev p))
            in if b = [] then ''/'' else b))"

text \<open>
  \<open>exec.Command\<close>: the path of the command is its name, and for a name without a
  directory part it is what \<open>exec.LookPath\<close> finds, when it finds something; the error of
  the lookup is kept in the command. \<open>LookPath\<close> searches the directories of the caller's
  \<open>PATH\<close>: it is a parameter, giving the path found (or the empty string) and the error.
\<close>

definition exec_Command ::
  "(string \<Rightarrow> string \<times> error option) \<Rightarrow> string \<Rightarrow> string list \<Rightarrow> Cmd" where
  "exec_Command LookPath name arg =
     (let cmd = \<lparr>cmd_Path = name, cmd_Args = name # arg, cmd_Env = None, cmd_Dir = [],
                 cmd_Err = None\<rparr>
      in if Base name = name then
           (let (lp, err) = LookPath name;
                cmd = (if lp \<noteq> [] then cmd\<lparr>cmd_Path := lp\<rparr> else cmd);
                cmd = (if err \<noteq> None then cmd\<lparr>cmd_Err := err\<rparr> else cmd)
            in cmd)
         else cmd)"

text \<open>\<open>append\<close> on a slice that may be nil.\<close>

definition append_nil :: "'a list option \<Rightarrow> 'a \<Rightarrow> 'a list option" where
  "append_nil xs x = (case xs of None \<Rightarrow> Some [x] | Some ys \<Rightarrow> Some (ys @ [x]))"

record localJobExecutor =
  rootDir :: string
  container :: Container
  containerIdx :: int

text \<open>The loop over the container's environment in \<open>localJobExecutor.cmd\<close>.\<close>

fun cmd_env_loop :: "EnvVar list \<Rightarrow> Cmd \<Rightarrow> Cmd" where
  "cmd_env_loop [] cmd = cmd"
| "cmd_env_loop (env # envs) cmd =
     (if env_Value env = [] then cmd_env_loop envs cmd
      else cmd_env_loop envs
             (cmd\<lparr>cmd_Env := append_nil (cmd_Env cmd) (env_Name env @ ''='' @ env_Value env)\<rparr>))"

definition localJobExecutor_cmd ::
  "(string \<Rightarrow> string \<times> error option) \<Rightarrow> localJobExecutor \<Rightarrow> error + Cmd" where
  "localJobExecutor_cmd LookPath e =
     (let cmdarr = Command (container e) @ Args (container e) in
      if length cmdarr = 0 then Inl ''kubetest: invalid command. command is empty''
      else
        (let cmd = (if length cmdarr = 1 then exec_Command LookPath (hd cmdarr) []
                    else exec_Command LookPath (hd cmdarr) (tl cmdarr));
             cmd = cmd_env_loop (Env (container e)) cmd;
             cmd = cmd\<lparr>cmd_Dir := filepath_Join [rootDir e, WorkingDir (container e)]\<rparr>
         in Inr cmd))"

section \<open>Masked messages\<close>

record MaskedMessage =
  msg :: string
  masks :: "string list"

text \<open>\<open>MaskedMessage.mask\<close>; the name \<open>mask\<close> is taken by the bit operations of HOL.\<close>

fun mask_message :: "string \<Rightarrow> string list \<Rightarrow> string" where
  "mask_message maskedMsg [] = maskedMsg"
| "mask_message maskedMsg (m # ms) =
     (let genMaskText = Repeat (CHR ''*'') (length m) in
      mask_message (Replace_all maskedMsg m genMaskText) ms)"

definition Filter :: "MaskedMessage \<Rightarrow> string \<Rightarrow> string" where
  "Filter m message = mask_message message (masks m)"

text \<open>
  The grouping as the specification words it: consecutive groups of \<open>k\<close> elements, the last
  one possibly shorter. It is the reference the loop of the source is compared with.
\<close>

function spec_chunks :: "nat \<Rightarrow> 'a list \<Rightarrow> 'a list list" where
  "spec_chunks k xs = (if k = 0 \<or> xs = [] then [] else take k xs # spec_chunks k (drop k xs))"
  by pat_completeness auto
termination by (relation "measure (\<lambda>(k, xs). length xs)") auto

declare spec_chunks.simps [simp del]

declare Schedule_groups.simps [code]


text \<open>
  \<open>starred s t\<close>: \<open>t\<close> is \<open>s\<close> with some bytes overwritten by \<open>*\<close>. It is the relation
  between a message and its masked form used in the proofs.
\<close>

definition starred :: "string \<Rightarrow> string \<Rightarrow> bool" where
  "starred s t = list_all2 (\<lambda>a b. b = a \<or> b = CHR ''*'') s t"

text \<open>
  The masking as the claim words it, for comparison with \<open>Filter\<close>.
  \<open>occurrences m s\<close> are the positions at which the mask \<open>m\<close> occurs in \<open>s\<close>, found from
  the left without overlap: after an occurrence the search goes on behind it. An empty
  mask occurs nowhere. \<open>stars_at s ps n\<close> is \<open>s\<close> with the \<open>n\<close> bytes from each position of
  \<open>ps\<close> on overwritten by \<open>*\<close>, and \<open>masked_once s m\<close> is \<open>s\<close> with every occurrence of \<open>m\<close>
  overwritten by \<open>*\<close> repeated to the length of \<open>m\<close>.
\<close>

function occurrences :: "string \<Rightarrow> string \<Rightarrow> nat list" where
  "occurrences m s =
     (if m = [] \<or> s = [] then []
      else if prefix m s then 0 # map (\<lambda>p. length m + p) (occurrences m (drop (length m) s))
      else map Suc (occurrences m (tl s)))"
  by pat_completeness auto
termination
  by (relation "measure (\<lambda>(m, s). length s)") auto

declare occurrences.simps [simp del]

definition stars_at :: "string \<Rightarrow> nat list \<Rightarrow> nat \<Rightarrow> string" where
  "stars_at s ps n =
     map (\<lambda>i. if \<exists>p\<in>set ps. p \<le> i \<and> i < p + n then CHR ''*'' else s ! i) [0..<length s]"

definition masked_once :: "string \<Rightarrow> string \<Rightarrow> string" where
  "masked_once s m = stars_at s (occurrences m s) (length m)"

definition example_masks :: MaskedMessage where
  "example_masks = \<lparr>msg = [], masks = [''s3cr3t'', ''tok'']\<rparr>"

text \<open>A mask list with a blank secret in it.\<close>

definition blank_mask_example :: MaskedMessage where
  "blank_mask_example = \<lparr>msg = [], masks = [[], ''s3cr3t'']\<rparr>"


text \<open>Example inputs: a container, a sub-task whose command fails, and one whose artifact copy fails.\<close>

definition example_container :: Container where
  "example_container =
     \<lparr>Name = ''test'', Image = ''alpine'', Command = [''sh'', ''-c''], Args = [''exit 1''],
      WorkingDir = ''/work'', Env = [\<lparr>env_Name = ''TEST'', env_Value = ''A''\<rparr>,
                                   \<lparr>env_Name = ''EMPTY'', env_Value = []\<rparr>,
                                   \<lparr>env_Name = ''MODE'', env_Value = ''ci''\<rparr>],
      VolumeMounts = None, ImagePullPolicy = []\<rparr>"

definition failing_subtask :: SubTask where
  "failing_subtask =
     \<lparr>task_Name = ''test'', KeyEnvName = [], OnFinish = False,
      exec = \<lparr>exec_Output = ([], Some ''exit status 1''), exec_Stop = None, exec_Elapsed = 3,
               exec_Container = example_container, exec_Pod = ''pod''\<rparr>,
      isMain = True, copyArtifact = None\<rparr>"

definition passing_subtask :: SubTask where
  "passing_subtask =
     \<lparr>task_Name = ''side'', KeyEnvName = [], OnFinish = False,
      exec = \<lparr>exec_Output = (''hello'', None), exec_Stop = None, exec_Elapsed = 1,
               exec_Container = example_container, exec_Pod = ''pod''\<rparr>,
      isMain = False, copyArtifact = Some ''no such file''\<rparr>"

text \<open>The entries \<open>NAME=VALUE\<close> of the environment variables with a non-empty value.\<close>

definition env_entries :: "EnvVar list \<Rightarrow> string list" where
  "env_entries envs =
     map (\<lambda>env. env_Name env @ ''='' @ env_Value env) (filter (\<lambda>env. env_Value env \<noteq> []) envs)"

text \<open>The elements of a slice that may be nil.\<close>

definition slice_of :: "'a list option \<Rightarrow> 'a list" where
  "slice_of xs = (case xs of None \<Rightarrow> [] | Some ys \<Rightarrow> ys)"

definition example_executor :: localJobExecutor where
  "example_executor = \<lparr>rootDir = ''/tmp/root1'', container = example_container, containerIdx = 0\<rparr>"

text \<open>A lookup that finds every command in \<open>/usr/bin\<close>.\<close>

definition example_LookPath :: "string \<Rightarrow> string \<times> error option" where
  "example_LookPath name = (''/usr/bin/'' @ name, None)"

section \<open>Task scheduler\<close>

text \<open>
  Integer division of Go: it truncates toward zero and panics on a zero divisor.
\<close>

definition go_div :: "int \<Rightarrow> int \<Rightarrow> int option" where
  "go_div a b = (if b = 0 then None else Some (sgn a * sgn b * (\<bar>a\<bar> div \<bar>b\<bar>)))"

text \<open>
  \<open>StrategyKey\<close>; its \<open>OnFinishSubTask\<close> callback only counts and logs finished keys and is
  left out.
\<close>

record StrategyKey =
  ConcurrentIdx :: int
  Keys :: "string list"
  key_Env :: string
  key_SubTaskScheduler :: SubTaskScheduler

record 'tmpl StrategyDynamicKeySource =
  dyn_Spec :: 'tmpl
  dyn_Delim :: string
  dyn_Filter :: string

record 'tmpl StrategyKeySource =
  Static :: "string list"
  Dynamic :: "'tmpl StrategyDynamicKeySource option"

text \<open>
  \<open>Strategy\<close> with the fields \<open>Key.Env\<close>, \<open>Key.Source\<close>, \<open>Scheduler.MaxContainersPerPod\<close>
  and \<open>Scheduler.MaxConcurrentNumPerPod\<close>.
\<close>

record 'tmpl Strategy =
  Key_Env :: string
  Key_Source :: "'tmpl StrategyKeySource"
  MaxContainersPerPod :: int
  MaxConcurrentNumPerPod :: int

record 'task TaskGroup =
  group_tasks :: "'task list"

definition NewTaskGroup :: "'task list \<Rightarrow> 'task TaskGroup" where
  "NewTaskGroup ts = \<lparr>group_tasks = ts\<rparr>"

text \<open>
  What the scheduler calls outside itself: the builder's \<open>BuildWithKey\<close>, the run of a
  task, the selection of the main results of a task result (\<open>Task.Run\<close> and
  \<open>TaskResult.MainTaskResults\<close> are not part of the scheduler), and \<open>regexp.Compile\<close>,
  which gives an error or the predicate \<open>MatchString\<close> of the compiled expression.
\<close>

record ('tmpl, 'task, 'result) collaborators =
  BuildWithKey :: "'tmpl \<Rightarrow> StrategyKey option \<Rightarrow> error + 'task"
  Task_Run :: "'task \<Rightarrow> error + 'result"
  MainTaskResults :: "'result \<Rightarrow> SubTaskResult list"
  regexp_Compile :: "string \<Rightarrow> error + (string \<Rightarrow> bool)"

definition Build :: "('tmpl, 'task, 'result) collaborators \<Rightarrow> 'tmpl \<Rightarrow> error + 'task" where
  "Build c step = BuildWithKey c step None"

definition sourceFilter ::
  "('tmpl, 'task, 'result) collaborators \<Rightarrow> string \<Rightarrow> error + (string \<Rightarrow> bool) option" where
  "sourceFilter c filter' =
     (if filter' = [] then Inr None
      else (case regexp_Compile c filter' of Inl err \<Rightarrow> Inl err | Inr re \<Rightarrow> Inr (Some re)))"

definition sourceDelim :: "string \<Rightarrow> string" where
  "sourceDelim delim = (let defaultDelim = [CHR 0x0A] in if delim = [] then defaultDelim else delim)"

text \<open>The loop of \<open>dynamicKeys\<close> over the pieces of the output.\<close>

fun dynamicKeys_loop :: "(string \<Rightarrow> bool) option \<Rightarrow> string list \<Rightarrow> string list \<Rightarrow> string list" where
  "dynamicKeys_loop filter' [] keys = keys"
| "dynamicKeys_loop filter' (key # rest) keys =
     (if TrimSpace key = [] then dynamicKeys_loop filter' rest keys
      else if (case filter' of None \<Rightarrow> False | Some re \<Rightarrow> \<not> re key)
      then dynamicKeys_loop filter' rest keys
      else dynamicKeys_loop filter' rest (keys @ [key]))"

definition dynamicKeys ::
  "('tmpl, 'task, 'result) collaborators \<Rightarrow> 'tmpl StrategyDynamicKeySource \<Rightarrow> error + string list" where
  "dynamicKeys c source =
     (case Build c (dyn_Spec source) of
        Inl err \<Rightarrow> Inl err
      | Inr keyTask \<Rightarrow>
          (case Task_Run c keyTask of
             Inl err \<Rightarrow> Inl err
           | Inr result \<Rightarrow>
               (let mainResults = MainTaskResults c result in
                if length mainResults = 0
                then Inl ''kubetest: failed to find main task results for dynamic keys''
                else if length mainResults > 1
                then Inl ''kubetest: found multiple main task results''
                else
                  (let out = Out (hd mainResults) in
                   case sourceFilter c (dyn_Filter source) of
                     Inl err \<Rightarrow> Inl err
                   | Inr filter' \<Rightarrow>
                       Inr (dynamicKeys_loop filter'
                              (Split out (sourceDelim (dyn_Delim source))) [])))))"

definition getScheduleKeys ::
  "('tmpl, 'task, 'result) collaborators \<Rightarrow> 'tmpl StrategyKeySource \<Rightarrow> error + string list" where
  "getScheduleKeys c source =
     (if length (Static source) > 0 then Inr (Static source)
      else (case Dynamic source of
              Some dyn \<Rightarrow> dynamicKeys c dyn
            | None \<Rightarrow> Inl ''kubetest: invalid schedule key source''))"

text \<open>
  The loop \<open>for i := 0; i <= concurrent; i++\<close> of \<open>TaskScheduler.Schedule\<close>, with the
  running offset \<open>sumk\<close> (the source's \<open>sum\<close>) and the tasks built so far. The result is \<open>None\<close> when a slice
  expression panics.
\<close>

function Schedule_tasks ::
  "('tmpl, 'task, 'result) collaborators \<Rightarrow> 'tmpl \<Rightarrow> 'tmpl Strategy \<Rightarrow> string list \<Rightarrow> int \<Rightarrow>
     int \<Rightarrow> int \<Rightarrow> 'task list \<Rightarrow> (error + 'task TaskGroup) option" where
  "Schedule_tasks c tmpl strategy keys concurrent i sumk ts =
     (let subTaskScheduler = NewSubTaskScheduler (MaxConcurrentNumPerPod strategy);
          maxContainers = MaxContainersPerPod strategy in
      if i \<le> concurrent then
        (case (if i = concurrent then slice_from keys sumk
               else slice keys sumk (sumk + maxContainers)) of
           None \<Rightarrow> None
         | Some taskKeys \<Rightarrow>
             (case BuildWithKey c tmpl
                     (Some \<lparr>ConcurrentIdx = i, Keys = taskKeys, key_Env = Key_Env strategy,
                            key_SubTaskScheduler = subTaskScheduler\<rparr>) of
                Inl err \<Rightarrow> Some (Inl err)
              | Inr task \<Rightarrow>
                  Schedule_tasks c tmpl strategy keys concurrent (i + 1) (sumk + maxContainers)
                    (ts @ [task])))
      else Some (Inr (NewTaskGroup ts)))"
  by pat_completeness auto
termination
  by (relation "measure (\<lambda>(c, tmpl, strategy, keys, concurrent, i, sumk, ts). nat (concurrent + 1 - i))")
     auto

declare Schedule_tasks.simps [simp del]

definition TaskScheduler_Schedule ::
  "('tmpl, 'task, 'result) collaborators \<Rightarrow> 'tmpl Strategy option \<Rightarrow> 'tmpl \<Rightarrow>
     (error + 'task TaskGroup) option" where
  "TaskScheduler_Schedule c strategy tmpl =
     (case strategy of
        None \<Rightarrow>
          (case Build c tmpl of
             Inl err \<Rightarrow> Some (Inl err)
           | Inr task \<Rightarrow> Some (Inr (NewTaskGroup [task])))
      | Some strategy \<Rightarrow>
          (case getScheduleKeys c (Key_Source strategy) of
             Inl err \<Rightarrow> Some (Inl err)
           | Inr keys \<Rightarrow>
               (let subTaskScheduler = NewSubTaskScheduler (MaxConcurrentNumPerPod strategy);
                    maxContainers = MaxContainersPerPod strategy in
                if int (length keys) \<le> maxContainers then
                  (case BuildWithKey c tmpl
                          (Some \<lparr>ConcurrentIdx = 0, Keys = keys, key_Env = Key_Env strategy,
                                 key_SubTaskScheduler = subTaskScheduler\<rparr>) of
                     Inl err \<Rightarrow> Some (Inl err)
                   | Inr task \<Rightarrow> Some (Inr (NewTaskGroup [task])))
                else
                  (case go_div (int (length keys)) maxContainers of
                     None \<Rightarrow> None
                   | Some concurrent \<Rightarrow>
                       Schedule_tasks c tmpl strategy keys concurrent 0 0 []))))"

text \<open>
  A builder that always succeeds and returns, as the task, the strategy key it was given:
  with it the tasks of a schedule show the keys assigned to each pod. The key step and the
  regular expressions are not used by a static key source.
\<close>

definition key_recorder :: "(unit, StrategyKey option, unit) collaborators" where
  "key_recorder =
     \<lparr>BuildWithKey = (\<lambda>tmpl key. Inr key),
      Task_Run = (\<lambda>task. Inl ''no key step''),
      MainTaskResults = (\<lambda>result. []),
      regexp_Compile = (\<lambda>expr. Inl ''no regular expressions'')\<rparr>"

definition static_strategy :: "string list \<Rightarrow> int \<Rightarrow> unit Strategy" where
  "static_strategy keys maxContainers =
     \<lparr>Key_Env = ''TEST'', Key_Source = \<lparr>Static = keys, Dynamic = None\<rparr>,
      MaxContainersPerPod = maxContainers, MaxConcurrentNumPerPod = 0\<rparr>"

text \<open>
  The strategy key of pod \<open>j\<close> as the loop of \<open>TaskScheduler.Schedule\<close> builds it, used to
  state what the loop returns.
\<close>

definition pod_key :: "'tmpl Strategy \<Rightarrow> string list \<Rightarrow> int \<Rightarrow> StrategyKey" where
  "pod_key strategy keys j =
     (let M = MaxContainersPerPod strategy; N = int (length keys) in
      \<lparr>ConcurrentIdx = j,
       Keys = (if j = N div M then drop (nat (j * M)) keys
               else take (nat M) (drop (nat (j * M)) keys)),
       key_Env = Key_Env strategy,
       key_SubTaskScheduler = NewSubTaskScheduler (MaxConcurrentNumPerPod strategy)\<rparr>)"

text \<open>
  A key step for the dynamic key source: the template is the text the step prints, the
  task result is its single main result, and a regular expression without
  metacharacters matches the strings that contain it.
\<close>

definition key_step_result :: "string \<Rightarrow> SubTaskResult" where
  "key_step_result out =
     \<lparr>Status = TaskResultSuccess, ElapsedTime = 2, Out = out, Err = None, ArtifactErr = None,
      res_Name = ''list'', res_Container = example_container, res_Pod = ''pod'',
      res_KeyEnvName = [], IsMain = True\<rparr>"

definition key_step :: "(string, string, SubTaskResult list) collaborators" where
  "key_step =
     \<lparr>BuildWithKey = (\<lambda>tmpl key. Inr tmpl),
      Task_Run = (\<lambda>task. Inr [key_step_result task]),
      MainTaskResults = filter IsMain,
      regexp_Compile = (\<lambda>expr. Inr (\<lambda>s. sublist expr s))\<rparr>"

section \<open>Task builder\<close>

subsection \<open>Templates\<close>

text \<open>
  The declarations of \<open>TestJobContainer\<close>, \<open>TestJobVolume\<close>, \<open>TestJobPodSpec\<close> and
  \<open>TestJobTemplateSpec\<close> are not among the sources; the records have the fields the
  builder uses. A \<open>TestJobVolume\<close> has one pointer per kind of source, tested by the
  builder in the order repository, artifact, token, log, report; an optional name stands
  for the pointers to a named source and a flag for the two others.
\<close>

record TestAgentSpec =
  InstalledPath :: string

record TestJobContainer = Container +
  Agent :: "TestAgentSpec option"

record TestJobVolume =
  vol_Name :: string
  vol_Repo :: "string option"
  vol_Artifact :: "string option"
  vol_Token :: "string option"
  vol_Log :: bool
  vol_Report :: bool
  vol_VolumeSource :: VolumeSource

definition zero_TestJobVolume :: TestJobVolume where
  "zero_TestJobVolume =
     \<lparr>vol_Name = [], vol_Repo = None, vol_Artifact = None, vol_Token = None, vol_Log = False,
      vol_Report = False, vol_VolumeSource = NoSource\<rparr>"

record PodSpec =
  pod_InitContainers :: "Container list"
  pod_Containers :: "Container list"
  pod_Volumes :: "Volume list"

record TestJobPodSpec =
  spec_PodSpec :: PodSpec
  InitContainers :: "TestJobContainer list"
  Containers :: "TestJobContainer list"
  FinalizerContainer :: TestJobContainer
  Volumes :: "TestJobVolume list"

record TestJobTemplateSpec =
  tmpl_Spec :: TestJobPodSpec

text \<open>\<open>container.Container\<close>: the embedded \<open>corev1.Container\<close> of a \<open>TestJobContainer\<close>.\<close>

definition embedded :: "TestJobContainer \<Rightarrow> Container" where
  "embedded c = Container.truncate c"

subsection \<open>Maps\<close>

text \<open>
  A Go map is an association list with distinct keys: \<open>map_set\<close> is the assignment
  \<open>m[k] = v\<close>, \<open>map_get\<close> the lookup with its \<open>exists\<close> flag. A \<open>for range\<close> over a map
  visits the entries in an order that Go leaves unspecified; the list fixes the order of
  insertion. A later \<open>merge\<close> is the loop \<open>for k, v := range m { ret[k] = v }\<close>.
  The theorems below speak of the entries of a map, or of maps with a single entry,
  neither of which depends on that order.
\<close>

definition map_set :: "string \<Rightarrow> 'v \<Rightarrow> (string \<times> 'v) list \<Rightarrow> (string \<times> 'v) list" where
  "map_set k v m = AList.update k v m"

definition map_get :: "(string \<times> 'v) list \<Rightarrow> string \<Rightarrow> 'v option" where
  "map_get m k = map_of m k"

fun merge :: "(string \<times> 'v) list \<Rightarrow> (string \<times> 'v) list \<Rightarrow> (string \<times> 'v) list" where
  "merge ret [] = ret"
| "merge ret ((k, v) # m) = merge (map_set k v ret) m"

subsection \<open>Deep copies\<close>

text \<open>
  Modelled from the spec: the \<open>DeepCopy\<close> methods are generated code that is not among
  the sources. A deep copy shares nothing with its original: a non-nil \<open>VolumeMounts\<close>
  slice is copied into a newly allocated array.
\<close>

definition DeepCopy_container :: "store \<Rightarrow> TestJobContainer \<Rightarrow> store \<times> TestJobContainer" where
  "DeepCopy_container h c =
     (case VolumeMounts c of
        None \<Rightarrow> (h, c)
      | Some a \<Rightarrow> (h @ [h ! a], c\<lparr>VolumeMounts := Some (length h)\<rparr>))"

fun DeepCopy_containers ::
  "store \<Rightarrow> TestJobContainer list \<Rightarrow> store \<times> TestJobContainer list" where
  "DeepCopy_containers h [] = (h, [])"
| "DeepCopy_containers h (c # cs) =
     (let (h1, c') = DeepCopy_container h c;
          (h2, cs') = DeepCopy_containers h1 cs
      in (h2, c' # cs'))"

definition DeepCopy_spec :: "store \<Rightarrow> TestJobPodSpec \<Rightarrow> store \<times> TestJobPodSpec" where
  "DeepCopy_spec h spec =
     (let (h1, inits) = DeepCopy_containers h (InitContainers spec);
          (h2, conts) = DeepCopy_containers h1 (Containers spec);
          (h3, fin) = DeepCopy_container h2 (FinalizerContainer spec)
      in (h3, spec\<lparr>InitContainers := inits, Containers := conts, FinalizerContainer := fin\<rparr>))"

subsection \<open>Expansion by strategy key\<close>

text \<open>The first loop of \<open>addContainersByStrategyKey\<close>, over the keys with their index.\<close>

fun clone_loop ::
  "store \<Rightarrow> TestJobContainer \<Rightarrow> StrategyKey \<Rightarrow> int \<Rightarrow> string list \<Rightarrow> TestJobContainer list \<Rightarrow>
     store \<times> TestJobContainer list" where
  "clone_loop h mainContainer strategyKey idx [] containers = (h, containers)"
| "clone_loop h mainContainer strategyKey idx (key # keys) containers =
     (let (h', container') = DeepCopy_container h mainContainer;
          container' = container'\<lparr>Name := Name container' @
                        Sprint_d (ConcurrentIdx strategyKey) @ ''-'' @ Sprint_d idx\<rparr>;
          container' = container'\<lparr>Env := Env container' @
                        [\<lparr>env_Name = key_Env strategyKey, env_Value = key\<rparr>]\<rparr>
      in clone_loop h' mainContainer strategyKey (idx + 1) keys (containers @ [container']))"

text \<open>The second loop, which keeps the containers that do not have the main name.\<close>

fun sideCar_loop ::
  "TestJobContainer \<Rightarrow> TestJobContainer list \<Rightarrow> TestJobContainer list \<Rightarrow> TestJobContainer list" where
  "sideCar_loop mainContainer [] sideCarContainers = sideCarContainers"
| "sideCar_loop mainContainer (container' # rest) sideCarContainers =
     (if Name container' = Name mainContainer then sideCar_loop mainContainer rest sideCarContainers
      else sideCar_loop mainContainer rest (sideCarContainers @ [container']))"

definition addContainersByStrategyKey ::
  "store \<Rightarrow> TestJobPodSpec \<Rightarrow> TestJobContainer \<Rightarrow> StrategyKey option \<Rightarrow> store \<times> TestJobPodSpec" where
  "addContainersByStrategyKey h podSpec mainContainer strategyKey =
     (case strategyKey of
        None \<Rightarrow> (h, podSpec)
      | Some key \<Rightarrow>
          (let (h', containers) = clone_loop h mainContainer key 0 (Keys key) [];
               sideCarContainers = sideCar_loop mainContainer (Containers podSpec) []
           in (h', podSpec\<lparr>Containers := sideCarContainers @ containers\<rparr>)))"

subsection \<open>Task containers\<close>

record TaskContainer =
  tc_container :: TestJobContainer
  repoNameToArchiveMountPath :: "(string \<times> string) list"
  repoNameToOrgMountPath :: "(string \<times> string) list"
  tokenNameToMountPath :: "(string \<times> string) list"
  tokenNameToOrgMountPath :: "(string \<times> string) list"
  artifactNameToMountPath :: "(string \<times> string) list"
  artifactNameToOrgMountPath :: "(string \<times> string) list"
  logOrgMountPaths :: "string list"
  reportOrgMountPaths :: "string list"
  podSpecVolumeMap :: "(string \<times> Volume) list"
  preInitVolumeMountMap :: "(string \<times> VolumeMount) list"

definition logMountPath :: string where
  "logMountPath = filepath_Join [''/'', ''tmp'', ''log'']"

definition reportMountPath :: string where
  "reportMountPath = filepath_Join [''/'', ''tmp'', ''report'']"

text \<open>The assignment \<open>c.VolumeMounts[idx].MountPath = path\<close> on the array at \<open>a\<close>.\<close>

definition set_MountPath :: "store \<Rightarrow> addr \<Rightarrow> nat \<Rightarrow> string \<Rightarrow> store" where
  "set_MountPath h a idx path = h[a := (h ! a)[idx := (h ! a ! idx)\<lparr>vm_MountPath := path\<rparr>]]"

definition emptyDir_volume :: "string \<Rightarrow> Volume" where
  "emptyDir_volume name = \<lparr>v_Name = name, v_VolumeSource = EmptyDir\<rparr>"

text \<open>The loop of \<open>newTaskContainer\<close> that indexes the volumes by name.\<close>

fun volume_index ::
  "TestJobVolume list \<Rightarrow> (string \<times> TestJobVolume) list \<Rightarrow> (string \<times> TestJobVolume) list" where
  "volume_index [] volumeNameToVolume = volumeNameToVolume"
| "volume_index (volume # volumes) volumeNameToVolume =
     volume_index volumes (map_set (vol_Name volume) volume volumeNameToVolume)"

text \<open>
  The lookup \<open>volumeNameToVolume[vm.Name]\<close>, which gives the zero value for a missing
  name.
\<close>

definition volume_of :: "(string \<times> TestJobVolume) list \<Rightarrow> string \<Rightarrow> TestJobVolume" where
  "volume_of volumeNameToVolume name =
     (case map_get volumeNameToVolume name of Some volume \<Rightarrow> volume | None \<Rightarrow> zero_TestJobVolume)"

text \<open>
  One turn of the loop \<open>for idx, vm := range c.VolumeMounts\<close> of \<open>newTaskContainer\<close>, on
  the array at \<open>a\<close>: the state is the store and the maps collected so far.
\<close>

definition mount_step ::
  "(string \<times> TestJobVolume) list \<Rightarrow> addr \<Rightarrow> nat \<Rightarrow> store \<times> TaskContainer \<Rightarrow>
     store \<times> TaskContainer" where
  "mount_step volumeNameToVolume a idx st =
     (let (h, tc) = st;
          vm = h ! a ! idx;
          volume = volume_of volumeNameToVolume (vm_Name vm)
      in case vol_Repo volume of
           Some repoName \<Rightarrow>
             (let repoVolumeName = vol_Name volume;
                  archiveMountPath = filepath_Join [''/'', ''tmp'', ''repo-archive'', repoVolumeName]
              in (set_MountPath h a idx archiveMountPath,
                  tc\<lparr>repoNameToArchiveMountPath :=
                       map_set repoName archiveMountPath (repoNameToArchiveMountPath tc),
                     repoNameToOrgMountPath :=
                       map_set repoName (vm_MountPath vm) (repoNameToOrgMountPath tc),
                     podSpecVolumeMap :=
                       map_set repoVolumeName (emptyDir_volume repoVolumeName) (podSpecVolumeMap tc),
                     preInitVolumeMountMap :=
                       map_set repoVolumeName
                         \<lparr>vm_Name = repoVolumeName, vm_MountPath = archiveMountPath\<rparr>
                         (preInitVolumeMountMap tc)\<rparr>))
         | None \<Rightarrow>
        (case vol_Artifact volume of
           Some artifactName \<Rightarrow>
             (let artifactVolumeName = vol_Name volume;
                  archiveMountPath =
                    filepath_Join [''/'', ''tmp'', ''artifact-archive'', artifactVolumeName]
              in (set_MountPath h a idx archiveMountPath,
                  tc\<lparr>artifactNameToMountPath :=
                       map_set artifactName archiveMountPath (artifactNameToMountPath tc),
                     artifactNameToOrgMountPath :=
                       map_set artifactName (vm_MountPath vm) (artifactNameToOrgMountPath tc),
                     podSpecVolumeMap :=
                       map_set artifactVolumeName (emptyDir_volume artifactVolumeName)
                         (podSpecVolumeMap tc),
                     preInitVolumeMountMap :=
                       map_set artifactVolumeName
                         \<lparr>vm_Name = artifactVolumeName, vm_MountPath = archiveMountPath\<rparr>
                         (preInitVolumeMountMap tc)\<rparr>))
         | None \<Rightarrow>
        (case vol_Token volume of
           Some tokenName \<Rightarrow>
             (let tokenVolumeName = vol_Name volume;
                  tokenMountPath = filepath_Join [''/'', ''tmp'', ''token'', tokenVolumeName]
              in (set_MountPath h a idx tokenMountPath,
                  tc\<lparr>tokenNameToMountPath :=
                       map_set tokenName tokenMountPath (tokenNameToMountPath tc),
                     tokenNameToOrgMountPath :=
                       map_set tokenName (vm_MountPath vm) (tokenNameToOrgMountPath tc),
                     podSpecVolumeMap :=
                       map_set tokenVolumeName (emptyDir_volume tokenVolumeName) (podSpecVolumeMap tc),
                     preInitVolumeMountMap :=
                       map_set tokenVolumeName
                         \<lparr>vm_Name = tokenVolumeName, vm_MountPath = tokenMountPath\<rparr>
                         (preInitVolumeMountMap tc)\<rparr>))
         | None \<Rightarrow>
        (if vol_Log volume then
           (let logVolumeName = vol_Name volume
            in (set_MountPath h a idx logMountPath,
                tc\<lparr>logOrgMountPaths := logOrgMountPaths tc @ [vm_MountPath vm],
                   podSpecVolumeMap :=
                     map_set logVolumeName (emptyDir_volume logVolumeName) (podSpecVolumeMap tc),
                   preInitVolumeMountMap :=
                     map_set logVolumeName \<lparr>vm_Name = logVolumeName, vm_MountPath = logMountPath\<rparr>
                       (preInitVolumeMountMap tc)\<rparr>))
         else if vol_Report volume then
           (let reportVolumeName = vol_Name volume
            in (set_MountPath h a idx reportMountPath,
                tc\<lparr>reportOrgMountPaths := reportOrgMountPaths tc @ [vm_MountPath vm],
                   podSpecVolumeMap :=
                     map_set reportVolumeName (emptyDir_volume reportVolumeName) (podSpecVolumeMap tc),
                   preInitVolumeMountMap :=
                     map_set reportVolumeName
                       \<lparr>vm_Name = reportVolumeName, vm_MountPath = reportMountPath\<rparr>
                       (preInitVolumeMountMap tc)\<rparr>))
         else
           (h, tc\<lparr>podSpecVolumeMap :=
                     map_set (vol_Name volume)
                       \<lparr>v_Name = vol_Name volume, v_VolumeSource = vol_VolumeSource volume\<rparr>
                       (podSpecVolumeMap tc)\<rparr>)))))"

definition new_maps :: "TestJobContainer \<Rightarrow> TaskContainer" where
  "new_maps c =
     \<lparr>tc_container = c,
      repoNameToArchiveMountPath = [], repoNameToOrgMountPath = [],
      tokenNameToMountPath = [], tokenNameToOrgMountPath = [],
      artifactNameToMountPath = [], artifactNameToOrgMountPath = [],
      logOrgMountPaths = [], reportOrgMountPaths = [],
      podSpecVolumeMap = [], preInitVolumeMountMap = []\<rparr>"

text \<open>
  \<open>newTaskContainer\<close> receives the container by value: \<open>c\<close> is a copy, and its
  \<open>VolumeMounts\<close> is the same array as the caller's. The range loop fixes the length of
  the slice when it starts and reads element \<open>idx\<close> in turn \<open>idx\<close>.
\<close>

definition newTaskContainer ::
  "store \<Rightarrow> TestJobContainer \<Rightarrow> TestJobVolume list \<Rightarrow> store \<times> TaskContainer" where
  "newTaskContainer h c volumes =
     (let volumeNameToVolume = volume_index volumes [] in
      case VolumeMounts c of
        None \<Rightarrow> (h, new_maps c)
      | Some a \<Rightarrow> fold (mount_step volumeNameToVolume a) [0..<length (h ! a)] (h, new_maps c))"

definition hasTestVolumeMount :: "TaskContainer \<Rightarrow> bool" where
  "hasTestVolumeMount c = (length (preInitVolumeMountMap c) > 0)"

subsection \<open>Groups of task containers\<close>

record TaskContainerGroup =
  containerMap :: "(string \<times> TaskContainer) list"

fun newTaskContainerGroup_loop ::
  "store \<Rightarrow> TestJobVolume list \<Rightarrow> TestJobContainer list \<Rightarrow> TaskContainerGroup \<Rightarrow>
     store \<times> TaskContainerGroup" where
  "newTaskContainerGroup_loop h volumes [] g = (h, g)"
| "newTaskContainerGroup_loop h volumes (c # cs) g =
     (let (h', tc) = newTaskContainer h c volumes in
      newTaskContainerGroup_loop h' volumes cs
        (g\<lparr>containerMap := map_set (Name c) tc (containerMap g)\<rparr>))"

definition newTaskContainerGroup ::
  "store \<Rightarrow> TestJobContainer list \<Rightarrow> TestJobVolume list \<Rightarrow> store \<times> TaskContainerGroup" where
  "newTaskContainerGroup h containers volumes =
     newTaskContainerGroup_loop h volumes containers \<lparr>containerMap = []\<rparr>"

fun group_hasTestVolumeMount_loop :: "(string \<times> TaskContainer) list \<Rightarrow> bool" where
  "group_hasTestVolumeMount_loop [] = False"
| "group_hasTestVolumeMount_loop ((name, c) # m) =
     (if hasTestVolumeMount c then True else group_hasTestVolumeMount_loop m)"

definition group_hasTestVolumeMount :: "TaskContainerGroup \<Rightarrow> bool" where
  "group_hasTestVolumeMount g = group_hasTestVolumeMount_loop (containerMap g)"

fun group_preInitImage_loop :: "(string \<times> TaskContainer) list \<Rightarrow> string" where
  "group_preInitImage_loop [] = []"
| "group_preInitImage_loop ((name, c) # m) =
     (if hasTestVolumeMount c then Image (tc_container c) else group_preInitImage_loop m)"

definition group_preInitImage :: "TaskContainerGroup \<Rightarrow> string" where
  "group_preInitImage g = group_preInitImage_loop (containerMap g)"

fun group_preInitImagePullPolicy_loop :: "(string \<times> TaskContainer) list \<Rightarrow> string" where
  "group_preInitImagePullPolicy_loop [] = []"
| "group_preInitImagePullPolicy_loop ((name, c) # m) =
     (if hasTestVolumeMount c then ImagePullPolicy (tc_container c)
      else group_preInitImagePullPolicy_loop m)"

definition group_preInitImagePullPolicy :: "TaskContainerGroup \<Rightarrow> string" where
  "group_preInitImagePullPolicy g = group_preInitImagePullPolicy_loop (containerMap g)"

fun group_podSpecVolumeMap_loop ::
  "(string \<times> TaskContainer) list \<Rightarrow> (string \<times> Volume) list \<Rightarrow> (string \<times> Volume) list" where
  "group_podSpecVolumeMap_loop [] ret = ret"
| "group_podSpecVolumeMap_loop ((name, c) # m) ret =
     group_podSpecVolumeMap_loop m (merge ret (podSpecVolumeMap c))"

definition group_podSpecVolumeMap :: "TaskContainerGroup \<Rightarrow> (string \<times> Volume) list" where
  "group_podSpecVolumeMap g = group_podSpecVolumeMap_loop (containerMap g) []"

fun group_preInitVolumeMountMap_loop ::
  "(string \<times> TaskContainer) list \<Rightarrow> (string \<times> VolumeMount) list \<Rightarrow>
     (string \<times> VolumeMount) list" where
  "group_preInitVolumeMountMap_loop [] ret = ret"
| "group_preInitVolumeMountMap_loop ((name, c) # m) ret =
     group_preInitVolumeMountMap_loop m (merge ret (preInitVolumeMountMap c))"

definition group_preInitVolumeMountMap :: "TaskContainerGroup \<Rightarrow> (string \<times> VolumeMount) list" where
  "group_preInitVolumeMountMap g = group_preInitVolumeMountMap_loop (containerMap g) []"

subsection \<open>Build context\<close>

record TaskBuildContext =
  ctx_initContainers :: TaskContainerGroup
  ctx_containers :: TaskContainerGroup
  ctx_finalizerContainers :: TaskContainerGroup
  ctx_spec :: TestJobPodSpec

text \<open>
  \<open>TaskBuildContext.taskContainer\<close>; a missing name gives the nil pointer, here \<open>None\<close>.
\<close>

definition taskContainer :: "TaskBuildContext \<Rightarrow> string \<Rightarrow> bool \<Rightarrow> TaskContainer option" where
  "taskContainer c name isInitContainer =
     (if isInitContainer then map_get (containerMap (ctx_initContainers c)) name
      else (case map_get (containerMap (ctx_finalizerContainers c)) name of
              Some task \<Rightarrow> Some task
            | None \<Rightarrow> map_get (containerMap (ctx_containers c)) name))"

definition needsToPreInit :: "TaskBuildContext \<Rightarrow> bool" where
  "needsToPreInit c =
     (group_hasTestVolumeMount (ctx_initContainers c) \<or>
      group_hasTestVolumeMount (ctx_containers c) \<or>
      group_hasTestVolumeMount (ctx_finalizerContainers c))"

definition preInitImage :: "TaskBuildContext \<Rightarrow> string" where
  "preInitImage c =
     (let image = group_preInitImage (ctx_initContainers c) in
      if image \<noteq> [] then image else group_preInitImage (ctx_containers c))"

definition preInitImagePullPolicy :: "TaskBuildContext \<Rightarrow> string" where
  "preInitImagePullPolicy c =
     (let policy = group_preInitImagePullPolicy (ctx_initContainers c) in
      if policy \<noteq> [] then policy else group_preInitImagePullPolicy (ctx_containers c))"

definition preInitVolumeMounts :: "TaskBuildContext \<Rightarrow> VolumeMount list" where
  "preInitVolumeMounts c =
     (let preInitVolumeMountMap0 = [];
          preInitVolumeMountMap1 =
            merge preInitVolumeMountMap0 (group_preInitVolumeMountMap (ctx_initContainers c));
          preInitVolumeMountMap2 =
            merge preInitVolumeMountMap1 (group_preInitVolumeMountMap (ctx_containers c));
          preInitVolumeMountMap3 =
            merge preInitVolumeMountMap2 (group_preInitVolumeMountMap (ctx_finalizerContainers c))
      in map snd preInitVolumeMountMap3)"

definition podSpec :: "TaskBuildContext \<Rightarrow> PodSpec" where
  "podSpec c =
     (let podSpec0 = spec_PodSpec (ctx_spec c);
          initContainers = map embedded (InitContainers (ctx_spec c));
          containers = map embedded (Containers (ctx_spec c));
          podSpecVolumeMap0 = [];
          podSpecVolumeMap1 = merge podSpecVolumeMap0 (group_podSpecVolumeMap (ctx_initContainers c));
          podSpecVolumeMap2 = merge podSpecVolumeMap1 (group_podSpecVolumeMap (ctx_containers c))
      in podSpec0\<lparr>pod_InitContainers := initContainers,
                  pod_Containers := containers,
                  pod_Volumes := pod_Volumes podSpec0 @ map snd podSpecVolumeMap2\<rparr>)"

text \<open>
  \<open>TaskBuilder.preInitContainer\<close>; the volume mounts of the new container are a new
  array.
\<close>

definition preInitContainer :: "store \<Rightarrow> TaskBuildContext \<Rightarrow> store \<times> TestJobContainer" where
  "preInitContainer h buildCtx =
     (h @ [preInitVolumeMounts buildCtx],
      \<lparr>Name = ''preinit'',
       Image = preInitImage buildCtx,
       Command = [''echo''],
       Args = [''-n'', ''preinit''],
       WorkingDir = [],
       Env = [],
       VolumeMounts = Some (length h),
       ImagePullPolicy = preInitImagePullPolicy buildCtx,
       Agent = None\<rparr>)"

subsection \<open>Building a job\<close>

text \<open>
  What \<open>buildJob\<close> calls outside the builder: \<open>JobBuilder.BuildWithJob\<close> and, inside
  \<open>preInitCallback\<close>, the resource manager. Their part in \<open>buildJob\<close> is the error they
  may return.
\<close>

record builder_calls =
  BuildWithJob_error :: "error option"
  preInitCallback_error :: "error option"

text \<open>
  The job that \<open>buildJob\<close> hands back, as far as the builder determines it: the pod
  specification, the finalizer given to \<open>SetFinalizer\<close>, the container given to
  \<open>PreInit\<close>, and the build context that the \<open>Mount\<close> callback captures. The labels and
  annotations of the pod are left out.
\<close>

record Job =
  job_podSpec :: PodSpec
  job_finalizer :: "Container option"
  job_preInit :: "TestJobContainer option"
  job_buildCtx :: TaskBuildContext

definition buildJob ::
  "builder_calls \<Rightarrow> store \<Rightarrow> TestJobContainer \<Rightarrow> TestJobTemplateSpec \<Rightarrow> StrategyKey option \<Rightarrow>
     store \<times> (error + Job)" where
  "buildJob b h mainContainer tmpl strategyKey =
     (let (h, spec) = DeepCopy_spec h (tmpl_Spec tmpl);
          (h, spec) = addContainersByStrategyKey h spec mainContainer strategyKey;
          (h, initContainers) = newTaskContainerGroup h (InitContainers spec) (Volumes spec);
          (h, containers) = newTaskContainerGroup h (Containers spec) (Volumes spec);
          (h, finalizerContainers) =
            newTaskContainerGroup h [FinalizerContainer spec] (Volumes spec);
          buildCtx = \<lparr>ctx_initContainers = initContainers, ctx_containers = containers,
                      ctx_finalizerContainers = finalizerContainers, ctx_spec = spec\<rparr>;
          podSpec' = podSpec buildCtx;
          finalizer = (if Name (FinalizerContainer spec) \<noteq> []
                       then Some (embedded (FinalizerContainer spec)) else None)
      in case BuildWithJob_error b of
           Some err \<Rightarrow> (h, Inl err)
         | None \<Rightarrow>
             if needsToPreInit buildCtx then
               (case preInitCallback_error b of
                  Some err \<Rightarrow> (h, Inl err)
                | None \<Rightarrow>
                    (let (h, preInit) = preInitContainer h buildCtx
                     in (h, Inr \<lparr>job_podSpec = podSpec', job_finalizer = finalizer,
                                  job_preInit = Some preInit, job_buildCtx = buildCtx\<rparr>)))
             else (h, Inr \<lparr>job_podSpec = podSpec', job_finalizer = finalizer,
                           job_preInit = None, job_buildCtx = buildCtx\<rparr>))"

subsection \<open>Mounting repositories\<close>

definition repository_command :: "string \<Rightarrow> string \<Rightarrow> string list" where
  "repository_command orgMountPath archiveMountPath =
     [''rm'', ''-rf'', orgMountPath,
      ''&&'',
      ''mkdir'', ''-p'', orgMountPath,
      ''&&'',
      ''tar'', ''-zxvf'', filepath_Join [archiveMountPath, ''repo.tar.gz''], ''-C'', orgMountPath]"

text \<open>
  The loop of \<open>mountRepository\<close> over \<open>repoNameToArchiveMountPath\<close>. \<open>PrepareCommand\<close> is
  the method of the executor, which gives an output and an error; \<open>issued\<close> collects the
  commands passed to it.
\<close>

fun mountRepository_loop ::
  "(string list \<Rightarrow> string \<times> error option) \<Rightarrow> TaskContainer \<Rightarrow> (string \<times> string) list \<Rightarrow>
     string list list \<Rightarrow> string list list \<times> error option" where
  "mountRepository_loop PrepareCommand tc [] issued = (issued, None)"
| "mountRepository_loop PrepareCommand tc ((repoName, archiveMountPath) # rest) issued =
     (case map_get (repoNameToOrgMountPath tc) repoName of
        None \<Rightarrow> (issued, Some (''kubetest: failed to find org mount path by '' @ repoName))
      | Some orgMountPath \<Rightarrow>
          (let cmd = repository_command orgMountPath archiveMountPath in
           case PrepareCommand cmd of
             (out, Some err) \<Rightarrow>
               (issued @ [cmd],
                Some (''kubetest: failed to mount repository. '' @ out @ '': '' @ err))
           | (out, None) \<Rightarrow> mountRepository_loop PrepareCommand tc rest (issued @ [cmd])))"

definition mountRepository ::
  "(string list \<Rightarrow> string \<times> error option) \<Rightarrow> TaskContainer \<Rightarrow> string list list \<times> error option" where
  "mountRepository PrepareCommand tc =
     mountRepository_loop PrepareCommand tc (repoNameToArchiveMountPath tc) []"

text \<open>
  The start of the \<open>Mount\<close> callback that \<open>buildJob\<close> registers: it looks the task
  container of the executor up and mounts its repositories. A nil task container makes
  the callback panic, which is \<open>None\<close>.
\<close>

definition Mount_repositories ::
  "Job \<Rightarrow> (string list \<Rightarrow> string \<times> error option) \<Rightarrow> string \<Rightarrow> bool \<Rightarrow>
     (string list list \<times> error option) option" where
  "Mount_repositories job PrepareCommand containerName isInitContainer =
     (case taskContainer (job_buildCtx job) containerName isInitContainer of
        None \<Rightarrow> None
      | Some tc \<Rightarrow> Some (mountRepository PrepareCommand tc))"

text \<open>The pod as it is submitted: every container with the elements of its volume mounts.\<close>

definition mounts_of :: "store \<Rightarrow> Container \<Rightarrow> VolumeMount list" where
  "mounts_of h c = load h (VolumeMounts c)"

section \<open>The task builder, as functions of the template\<close>

text \<open>
  The path under which the builder stages a volume of the test job; an ordinary volume
  has none.
\<close>

definition staging_path :: "TestJobVolume \<Rightarrow> string option" where
  "staging_path volume =
     (case vol_Repo volume of
        Some repoName \<Rightarrow> Some (filepath_Join [''/'', ''tmp'', ''repo-archive'', vol_Name volume])
      | None \<Rightarrow>
     (case vol_Artifact volume of
        Some artifactName \<Rightarrow> Some (filepath_Join [''/'', ''tmp'', ''artifact-archive'', vol_Name volume])
      | None \<Rightarrow>
     (case vol_Token volume of
        Some tokenName \<Rightarrow> Some (filepath_Join [''/'', ''tmp'', ''token'', vol_Name volume])
      | None \<Rightarrow>
     (if vol_Log volume then Some logMountPath
      else if vol_Report volume then Some reportMountPath
      else None))))"

text \<open>
  A volume mount as the loop of \<open>newTaskContainer\<close> leaves it, and the maps of the task
  container after the turn of the loop that reads the volume mount \<open>vm\<close>: the turn reads
  nothing else of the store.
\<close>

definition rewritten :: "(string \<times> TestJobVolume) list \<Rightarrow> VolumeMount \<Rightarrow> VolumeMount" where
  "rewritten volumeNameToVolume vm =
     (case staging_path (volume_of volumeNameToVolume (vm_Name vm)) of
        Some path \<Rightarrow> vm\<lparr>vm_MountPath := path\<rparr>
      | None \<Rightarrow> vm)"

definition collected :: "(string \<times> TestJobVolume) list \<Rightarrow> VolumeMount \<Rightarrow> TaskContainer \<Rightarrow> TaskContainer" where
  "collected volumeNameToVolume vm tc = snd (mount_step volumeNameToVolume 0 0 ([[vm]], tc))"

text \<open>
  The task container that \<open>newTaskContainer\<close> builds for a container whose mounts are
  read in the store \<open>h\<close>.
\<close>

definition task_of :: "(string \<times> TestJobVolume) list \<Rightarrow> store \<Rightarrow> TestJobContainer \<Rightarrow> TaskContainer" where
  "task_of vtv h c = fold (collected vtv) (load h (VolumeMounts c)) (new_maps c)"

text \<open>
  A container is valid in a store when its \<open>VolumeMounts\<close> slice is nil or an array of
  the store; \<open>addrs\<close> are the arrays that the containers of a list refer to, and \<open>strip\<close>
  is a container without its volume mounts, which is what does not depend on the store.
  A container is a copy of a source container when it has the same fields and its
  mounts, read in the store \<open>hx\<close>, are those of the source in the store \<open>h\<close>.
\<close>

definition valid :: "store \<Rightarrow> TestJobContainer \<Rightarrow> bool" where
  "valid h c = (case VolumeMounts c of None \<Rightarrow> True | Some a \<Rightarrow> a < length h)"

definition addrs :: "TestJobContainer list \<Rightarrow> addr list" where
  "addrs cs = concat (map (\<lambda>c. case VolumeMounts c of None \<Rightarrow> [] | Some a \<Rightarrow> [a]) cs)"

definition strip :: "TestJobContainer \<Rightarrow> TestJobContainer" where
  "strip c = c\<lparr>VolumeMounts := None\<rparr>"

definition copy_of :: "store \<Rightarrow> store \<Rightarrow> TestJobContainer \<Rightarrow> TestJobContainer \<Rightarrow> bool" where
  "copy_of h hx c src =
     (strip c = strip src \<and> valid hx c \<and> load hx (VolumeMounts c) = load h (VolumeMounts src))"

definition without_mounts :: "Container \<Rightarrow> Container" where
  "without_mounts c = c\<lparr>VolumeMounts := None\<rparr>"

text \<open>
  The clone of the main container for one key as the specification words it: the name
  with the concurrent index, a dash and the index of the key appended, and the key as one
  more environment variable.
\<close>

definition clone_of :: "TestJobContainer \<Rightarrow> StrategyKey \<Rightarrow> int \<Rightarrow> string \<Rightarrow> TestJobContainer" where
  "clone_of mainContainer key idx k =
     mainContainer\<lparr>Name := Name mainContainer @ Sprint_d (ConcurrentIdx key) @ ''-'' @ Sprint_d idx,
                   Env := Env mainContainer @ [\<lparr>env_Name = key_Env key, env_Value = k\<rparr>]\<rparr>"

text \<open>
  The containers of the pod as the specification words them. Without a strategy key
  they are the containers of the template; with one they are the containers that do not
  have the name of the main container, followed by one clone per key.
\<close>

definition expected_containers ::
  "TestJobContainer \<Rightarrow> TestJobPodSpec \<Rightarrow> StrategyKey option \<Rightarrow> TestJobContainer list" where
  "expected_containers mainContainer spec strategyKey =
     (case strategyKey of
        None \<Rightarrow> Containers spec
      | Some key \<Rightarrow>
          filter (\<lambda>c. Name c \<noteq> Name mainContainer) (Containers spec) @
          map (\<lambda>j. clone_of mainContainer key (int j) (Keys key ! j)) [0..<length (Keys key)])"

text \<open>
  The three groups of containers of a build context. The containers of the template
  that the containers of a job come from are the init containers, the containers of the
  pod as above, and the finalizer when it has a name; the containers of the job are
  those of its pod and the finalizer given to \<open>SetFinalizer\<close>.
\<close>

datatype container_group = InitGroup | MainGroup | FinalizerGroup

definition user_containers ::
  "TestJobContainer \<Rightarrow> TestJobPodSpec \<Rightarrow> StrategyKey option \<Rightarrow> container_group \<Rightarrow>
     TestJobContainer list" where
  "user_containers mainContainer spec strategyKey g =
     (case g of
        InitGroup \<Rightarrow> InitContainers spec
      | MainGroup \<Rightarrow> expected_containers mainContainer spec strategyKey
      | FinalizerGroup \<Rightarrow>
          (if Name (FinalizerContainer spec) \<noteq> [] then [FinalizerContainer spec] else []))"

definition job_containers :: "Job \<Rightarrow> container_group \<Rightarrow> Container list" where
  "job_containers job g =
     (case g of
        InitGroup \<Rightarrow> pod_InitContainers (job_podSpec job)
      | MainGroup \<Rightarrow> pod_Containers (job_podSpec job)
      | FinalizerGroup \<Rightarrow> (case job_finalizer job of None \<Rightarrow> [] | Some c \<Rightarrow> [c]))"

text \<open>
  The volume that a name refers to: the last one declared under the name, and the zero
  value when there is none. \<open>indexed\<close> is the property of the index of volumes that every
  volume is found under its own name.
\<close>

definition volume_named :: "TestJobVolume list \<Rightarrow> string \<Rightarrow> TestJobVolume" where
  "volume_named volumes name =
     (case filter (\<lambda>volume. vol_Name volume = name) volumes of
        [] \<Rightarrow> zero_TestJobVolume
      | vs \<Rightarrow> last vs)"

definition indexed :: "(string \<times> TestJobVolume) list \<Rightarrow> bool" where
  "indexed vtv = (\<forall>k v. (k, v) \<in> set vtv \<longrightarrow> vol_Name v = k)"

text \<open>
  The repository that a volume mount is declared for, the volume of the pod for a
  volume of the test job (an \<open>emptyDir\<close> where the builder stages the volume), and the
  property of a map of pod volumes that every entry with a name is the pod volume of its
  key.
\<close>

definition repo_of :: "(string \<times> TestJobVolume) list \<Rightarrow> VolumeMount \<Rightarrow> string option" where
  "repo_of vtv vm = vol_Repo (volume_of vtv (vm_Name vm))"

definition pod_volume :: "TestJobVolume \<Rightarrow> Volume" where
  "pod_volume volume =
     (if staging_path volume \<noteq> None then emptyDir_volume (vol_Name volume)
      else \<lparr>v_Name = vol_Name volume, v_VolumeSource = vol_VolumeSource volume\<rparr>)"

definition pod_volumes_ok :: "(string \<times> TestJobVolume) list \<Rightarrow> (string \<times> Volume) list \<Rightarrow> bool" where
  "pod_volumes_ok vtv m = (\<forall>k v. (k, v) \<in> set m \<longrightarrow> k \<noteq> [] \<longrightarrow> v = pod_volume (volume_of vtv k))"

text \<open>
  A name that is a single element of a path: \<open>filepath.Join\<close> leaves such an element
  as it is.
\<close>

definition plain_element :: "string \<Rightarrow> bool" where
  "plain_element V = (V \<noteq> [] \<and> CHR ''/'' \<notin> set V \<and> V \<noteq> ''.'' \<and> V \<noteq> ''..'')"

subsection \<open>Example templates\<close>

text \<open>
  A volume for a repository, a container with a command, the zero value of a container
  (a template without finalizer), calls that do not fail, and the \<open>PrepareCommand\<close> of
  the local executor, which returns no output and no error.
\<close>

definition repo_volume :: "string \<Rightarrow> string \<Rightarrow> TestJobVolume" where
  "repo_volume name repo = zero_TestJobVolume\<lparr>vol_Name := name, vol_Repo := Some repo\<rparr>"

definition user_container :: "string \<Rightarrow> string \<Rightarrow> addr option \<Rightarrow> TestJobContainer" where
  "user_container name img mounts =
     \<lparr>Name = name, Image = img, Command = [''echo''], Args = [''hello''], WorkingDir = ''/work'',
      Env = [], VolumeMounts = mounts, ImagePullPolicy = ''IfNotPresent'', Agent = None\<rparr>"

definition no_container :: TestJobContainer where
  "no_container =
     \<lparr>Name = [], Image = [], Command = [], Args = [], WorkingDir = [],
      Env = [], VolumeMounts = None, ImagePullPolicy = [], Agent = None\<rparr>"

definition no_calls_fail :: builder_calls where
  "no_calls_fail = \<lparr>BuildWithJob_error = None, preInitCallback_error = None\<rparr>"

definition PrepareCommand_ok :: "string list \<Rightarrow> string \<times> error option" where
  "PrepareCommand_ok cmd = ([], None)"

text \<open>
  A template whose main container \<open>test\<close> mounts a repository volume at \<open>/work\<close>,
  beside a sidecar; the store holds the array of the mount. A strategy key with two keys.
\<close>

definition one_mount_store :: store where
  "one_mount_store = [[\<lparr>vm_Name = ''repo-volume'', vm_MountPath = ''/work''\<rparr>]]"

definition sidecar_tmpl :: TestJobTemplateSpec where
  "sidecar_tmpl = \<lparr>tmpl_Spec =
     \<lparr>spec_PodSpec = \<lparr>pod_InitContainers = [], pod_Containers = [], pod_Volumes = []\<rparr>,
      InitContainers = [],
      Containers = [user_container ''test'' ''alpine'' (Some 0),
                    user_container ''sidecar'' ''nginx'' None],
      FinalizerContainer = no_container,
      Volumes = [repo_volume ''repo-volume'' ''repo'']\<rparr>\<rparr>"

definition example_key :: StrategyKey where
  "example_key = \<lparr>ConcurrentIdx = 1, Keys = [''A'', ''B''], key_Env = ''TEST'',
                   key_SubTaskScheduler = NewSubTaskScheduler 0\<rparr>"

text \<open>
  A template in which only the finalizer container mounts a repository volume, and one
  whose main container mounts two volumes of the same repository, at \<open>/a\<close> and at
  \<open>/b\<close>.
\<close>

definition finalizer_tmpl :: TestJobTemplateSpec where
  "finalizer_tmpl = \<lparr>tmpl_Spec =
     \<lparr>spec_PodSpec = \<lparr>pod_InitContainers = [], pod_Containers = [], pod_Volumes = []\<rparr>,
      InitContainers = [],
      Containers = [user_container ''test'' ''alpine'' None],
      FinalizerContainer = user_container ''fin'' ''busybox'' (Some 0),
      Volumes = [repo_volume ''repo-volume'' ''repo'']\<rparr>\<rparr>"

definition two_mounts_store :: store where
  "two_mounts_store = [[\<lparr>vm_Name = ''repo-a'', vm_MountPath = ''/a''\<rparr>,
                        \<lparr>vm_Name = ''repo-b'', vm_MountPath = ''/b''\<rparr>]]"

definition two_mounts_tmpl :: TestJobTemplateSpec where
  "two_mounts_tmpl = \<lparr>tmpl_Spec =
     \<lparr>spec_PodSpec = \<lparr>pod_InitContainers = [], pod_Containers = [], pod_Volumes = []\<rparr>,
      InitContainers = [],
      Containers = [user_container ''test'' ''alpine'' (Some 0)],
      FinalizerContainer = no_container,
      Volumes = [repo_volume ''repo-a'' ''repo'', repo_volume ''repo-b'' ''repo'']\<rparr>\<rparr>"

text \<open>
  What a built job shows: the name, environment and mounts of the containers of its pod,
  the image and pull policy of its pre-init container, the volumes of its pod, and the
  commands that its \<open>Mount\<close> callback issues for a container with the local
  \<open>PrepareCommand\<close>.
\<close>

definition pod_summary :: "store \<times> (error + Job) \<Rightarrow> error + (string \<times> EnvVar list \<times> VolumeMount list) list" where
  "pod_summary r =
     (case snd r of
        Inl err \<Rightarrow> Inl err
      | Inr job \<Rightarrow> Inr (map (\<lambda>c. (Name c, Env c, mounts_of (fst r) c))
                          (pod_Containers (job_podSpec job))))"

definition preInit_summary :: "store \<times> (error + Job) \<Rightarrow> error + (string \<times> string) option" where
  "preInit_summary r =
     (case snd r of
        Inl err \<Rightarrow> Inl err
      | Inr job \<Rightarrow> Inr (case job_preInit job of
                         None \<Rightarrow> None
                       | Some preInit \<Rightarrow> Some (Image preInit, ImagePullPolicy preInit)))"

definition volumes_summary :: "store \<times> (error + Job) \<Rightarrow> error + Volume list" where
  "volumes_summary r =
     (case snd r of Inl err \<Rightarrow> Inl err | Inr job \<Rightarrow> Inr (pod_Volumes (job_podSpec job)))"

definition Mount_summary ::
  "store \<times> (error + Job) \<Rightarrow> string \<Rightarrow> bool \<Rightarrow> error + (string list list \<times> error option) option" where
  "Mount_summary r containerName isInitContainer =
     (case snd r of
        Inl err \<Rightarrow> Inl err
      | Inr job \<Rightarrow> Inr (Mount_repositories job PrepareCommand_ok containerName isInitContainer))"


section \<open>The sub-task scheduler groups its input\<close>

lemma concat_spec_chunks: "0 < k \<Longrightarrow> concat (spec_chunks k xs) = xs"
proof (induction k xs rule: spec_chunks.induct)
  case (1 k xs)
  then show ?case by (subst spec_chunks.simps) auto
qed

lemma length_spec_chunks: "0 < k \<Longrightarrow> length (spec_chunks k xs) = (length xs + k - 1) div k"
proof (induction k xs rule: spec_chunks.induct)
  case (1 k xs)
  show ?case
  proof (cases "xs = []")
    case True
    with 1 show ?thesis by (subst spec_chunks.simps) simp
  next
    case False
    then have len: "0 < length xs" by simp
    have "length (spec_chunks k xs) = Suc ((length (drop k xs) + k - 1) div k)"
      using 1 False by (subst spec_chunks.simps) simp
    also have "\<dots> = (length xs + k - 1) div k"
    proof (cases "k \<le> length xs")
      case True
      then have "length xs + k - 1 = (length xs - k + k - 1) + k" using 1(2) by simp
      then have "(length xs + k - 1) div k = Suc ((length xs - k + k - 1) div k)"
        using 1(2) by (simp only: div_add_self2)
      then show ?thesis by simp
    next
      case False
      then have "k * 1 \<le> length xs + k - 1" "length xs + k - 1 < k * Suc 1"
        using len by arith+
      then have "(length xs + k - 1) div k = 1"
        by (rule div_nat_eqI)
      then show ?thesis using False 1(2) by simp
    qed
    finally show ?thesis .
  qed
qed

lemma Schedule_groups_chunks:
  "0 < c \<Longrightarrow> 0 \<le> i \<Longrightarrow> i \<le> int (length ts) \<Longrightarrow>
   Schedule_groups ts c i gs = Some (gs @ map NewSubTaskGroup (spec_chunks (nat c) (drop (nat i) ts)))"
proof (induction "nat (int (length ts) - i)" arbitrary: i gs rule: less_induct)
  case less
  show ?case
  proof (cases "i < int (length ts)")
    case False
    with less.prems have "nat i = length ts" by simp
    then show ?thesis using False
      by (subst Schedule_groups.simps, subst spec_chunks.simps) simp
  next
    case True
    define e where "e = (if i + c > int (length ts) then int (length ts) else i + c)"
    have sl: "slice ts i e = Some (take (nat c) (drop (nat i) ts))"
    proof (cases "i + c > int (length ts)")
      case True
      then have "e = int (length ts)" by (simp add: e_def)
      moreover have "nat (int (length ts) - i) = length (drop (nat i) ts)"
        using less.prems by (simp add: nat_diff_distrib)
      moreover have "length (drop (nat i) ts) \<le> nat c"
        using True less.prems by simp
      ultimately show ?thesis using less.prems by (simp add: slice_def)
    next
      case False
      then have "e = i + c" by (simp add: e_def)
      then show ?thesis using False less.prems by (simp add: slice_def)
    qed
    show ?thesis
    proof (cases "i + c \<le> int (length ts)")
      case le: True
      have "Schedule_groups ts c (i + c) (gs @ [NewSubTaskGroup (take (nat c) (drop (nat i) ts))])
          = Some ((gs @ [NewSubTaskGroup (take (nat c) (drop (nat i) ts))]) @
               map NewSubTaskGroup (spec_chunks (nat c) (drop (nat (i + c)) ts)))"
        using less.prems le by (intro less.hyps) auto
      moreover have "drop (nat (i + c)) ts = drop (nat c) (drop (nat i) ts)"
        using less.prems by (simp add: nat_add_distrib add.commute)
      moreover have "drop (nat i) ts \<noteq> []" using True less.prems by simp
      ultimately show ?thesis using True sl less.prems(1)
        by (subst Schedule_groups.simps, subst spec_chunks.simps) (simp add: e_def Let_def)
    next
      case gt: False
      have "Schedule_groups ts c (i + c) (gs @ [NewSubTaskGroup (take (nat c) (drop (nat i) ts))])
          = Some (gs @ [NewSubTaskGroup (take (nat c) (drop (nat i) ts))])"
        using gt by (subst Schedule_groups.simps) simp
      moreover have "drop (nat c) (drop (nat i) ts) = []" using gt less.prems by simp
      moreover have "drop (nat i) ts \<noteq> []" using True less.prems by simp
      ultimately show ?thesis using True sl less.prems(1) gt
        by (subst Schedule_groups.simps, subst spec_chunks.simps, subst spec_chunks.simps) (simp add: e_def Let_def)
    qed
  qed
qed


lemma nth_spec_chunks:
  "0 < k \<Longrightarrow> j < length (spec_chunks k xs) \<Longrightarrow> spec_chunks k xs ! j = take k (drop (j * k) xs)"
proof (induction k xs arbitrary: j rule: spec_chunks.induct)
  case (1 k xs)
  from "1.prems" have ne: "xs \<noteq> []"
    by (subst (asm) spec_chunks.simps) (auto split: if_splits)
  have unf: "spec_chunks k xs = take k xs # spec_chunks k (drop k xs)"
    using ne "1.prems"(1) by (subst spec_chunks.simps) simp
  show ?case
  proof (cases j)
    case 0
    then show ?thesis by (simp add: unf)
  next
    case (Suc j')
    then have "j' < length (spec_chunks k (drop k xs))"
      using "1.prems"(2) by (simp add: unf)
    then have "spec_chunks k (drop k xs) ! j' = take k (drop (j' * k) (drop k xs))"
      using "1.IH" ne "1.prems"(1) by simp
    then show ?thesis using Suc by (simp add: unf add.commute)
  qed
qed

lemma length_nth_spec_chunks:
  assumes "0 < k" "Suc j < length (spec_chunks k xs)"
  shows "length (spec_chunks k xs ! j) = k"
proof -
  have "Suc j < (length xs + k - 1) div k"
    using assms by (simp add: length_spec_chunks)
  then have "Suc (Suc j) * k \<le> (length xs + k - 1) div k * k"
    by (intro mult_le_mono1) simp
  also have "\<dots> \<le> length xs + k - 1"
    by (rule div_times_less_eq_dividend)
  finally have "j * k + k \<le> length xs" using assms(1) by simp
  moreover have "spec_chunks k xs ! j = take k (drop (j * k) xs)"
    using assms by (intro nth_spec_chunks) auto
  ultimately show ?thesis by simp
qed


lemma spec_chunks_single:
  assumes "xs \<noteq> []" "length xs \<le> k"
  shows "spec_chunks k xs = [xs]"
proof -
  have "0 < k" using assms by (cases xs) auto
  then have "spec_chunks k xs = take k xs # spec_chunks k (drop k xs)"
    using assms(1) by (subst spec_chunks.simps) simp
  also have "spec_chunks k (drop k xs) = []"
    using assms(2) by (subst spec_chunks.simps) simp
  finally show ?thesis using assms(2) by simp
qed

lemma length_last_spec_chunks:
  assumes "0 < k" "xs \<noteq> []"
  shows "0 < length (last (spec_chunks k xs)) \<and> length (last (spec_chunks k xs)) \<le> k"
proof -
  define n where "n = length (spec_chunks k xs)"
  have n_eq: "n = (length xs + k - 1) div k"
    using assms(1) by (simp add: n_def length_spec_chunks)
  have "k \<le> length xs + k - 1" using assms(2) by (cases xs) auto
  then have "1 \<le> n" unfolding n_eq using assms(1)
    by (metis div_self div_le_mono less_numeral_extra(3))
  then have ne: "spec_chunks k xs \<noteq> []" unfolding n_def by auto
  have "n * k \<le> length xs + k - 1"
    unfolding n_eq by (rule div_times_less_eq_dividend)
  moreover have "n * k = (n - 1) * k + k"
    using \<open>1 \<le> n\<close> by (metis add.commute le_add_diff_inverse mult_Suc Suc_eq_plus1 add_diff_cancel_right' mult.commute mult_Suc_right)
  ultimately have lt: "(n - 1) * k < length xs" using assms(2) by (cases xs) auto
  have "last (spec_chunks k xs) = spec_chunks k xs ! (n - 1)"
    using ne by (simp add: last_conv_nth n_def)
  also have "\<dots> = take k (drop ((n - 1) * k) xs)"
    using assms(1) \<open>1 \<le> n\<close> by (intro nth_spec_chunks) (auto simp: n_def)
  finally show ?thesis using lt assms(1) by simp
qed

text \<open>
  Claim C2. \<open>SubTaskScheduler.Schedule\<close> returns for every list of \<open>N\<close> sub-tasks and every cap
  \<open>K\<close>. With \<open>K \<le> 0\<close> or \<open>K \<ge> N\<close> it emits the single group of all \<open>N\<close> sub-tasks. Otherwise
  it emits \<open>\<lceil>N/K\<rceil>\<close> groups (written \<open>(N + K - 1) div K\<close>), group \<open>j\<close> being the slice
  \<open>[j\<cdot>K, (j+1)\<cdot>K)\<close> of the input; every group but the last has exactly \<open>K\<close> sub-tasks, the
  last one between \<open>1\<close> and \<open>K\<close>, and in both cases the concatenation of the groups is the
  input list.
\<close>

theorem SubTaskScheduler_Schedule_groups:
  "\<exists>groups. SubTaskScheduler_Schedule s ts = Some groups \<and>
     concat (map tasks groups) = ts \<and>
     (if maxConcurrentNumPerPod s \<le> 0 \<or> int (length ts) \<le> maxConcurrentNumPerPod s
      then groups = [NewSubTaskGroup ts]
      else length groups =
             (length ts + nat (maxConcurrentNumPerPod s) - 1) div nat (maxConcurrentNumPerPod s) \<and>
           (\<forall>j<length groups.
              tasks (groups ! j) =
                take (nat (maxConcurrentNumPerPod s)) (drop (j * nat (maxConcurrentNumPerPod s)) ts)) \<and>
           (\<forall>j. Suc j < length groups \<longrightarrow>
              length (tasks (groups ! j)) = nat (maxConcurrentNumPerPod s)) \<and>
           0 < length (tasks (last groups)) \<and>
           length (tasks (last groups)) \<le> nat (maxConcurrentNumPerPod s))"
proof -
  define K where "K = maxConcurrentNumPerPod s"
  define c where "c = getConcurrentNum s (int (length ts))"
  have tasks_map: "map tasks (map NewSubTaskGroup cs) = cs" for cs :: "'a list list"
    by (induction cs) (simp_all add: NewSubTaskGroup_def)
  show ?thesis
  proof (cases "K \<le> 0 \<or> int (length ts) \<le> K")
    case True
    then have c_eq: "c = int (length ts)"
      by (auto simp: c_def getConcurrentNum_def K_def Let_def)
    have "SubTaskScheduler_Schedule s ts = Some [NewSubTaskGroup ts]"
    proof (cases "ts = []")
      case True
      then show ?thesis
        using c_eq by (simp add: SubTaskScheduler_Schedule_def c_def)
    next
      case False
      then have pos: "0 < c" using c_eq by simp
      have "Schedule_groups ts c 0 [] =
              Some ([] @ map NewSubTaskGroup (spec_chunks (nat c) (drop (nat 0) ts)))"
        using pos by (intro Schedule_groups_chunks) auto
      moreover have "spec_chunks (nat c) ts = [ts]"
        using False c_eq by (intro spec_chunks_single) auto
      ultimately show ?thesis
        using pos by (simp add: SubTaskScheduler_Schedule_def c_def [symmetric])
    qed
    then show ?thesis using True by (simp add: K_def NewSubTaskGroup_def)
  next
    case False
    then have K: "0 < K" "K < int (length ts)" by auto
    then have c_eq: "c = K"
      by (auto simp: c_def getConcurrentNum_def K_def Let_def)
    define cs where "cs = spec_chunks (nat K) ts"
    have ne: "ts \<noteq> []" using K by auto
    have "Schedule_groups ts c 0 [] =
            Some ([] @ map NewSubTaskGroup (spec_chunks (nat c) (drop (nat 0) ts)))"
      using K c_eq by (intro Schedule_groups_chunks) auto
    then have run: "SubTaskScheduler_Schedule s ts = Some (map NewSubTaskGroup cs)"
      using K c_eq by (simp add: SubTaskScheduler_Schedule_def c_def [symmetric] cs_def)
    have k: "0 < nat K" using K by simp
    have len: "length cs = (length ts + nat K - 1) div nat K"
      unfolding cs_def using k by (rule length_spec_chunks)
    have cat: "concat cs = ts"
      unfolding cs_def using k by (rule concat_spec_chunks)
    have nth: "\<forall>j<length cs. cs ! j = take (nat K) (drop (j * nat K) ts)"
      unfolding cs_def using k by (simp add: nth_spec_chunks)
    have full: "\<forall>j. Suc j < length cs \<longrightarrow> length (cs ! j) = nat K"
      unfolding cs_def using k by (simp add: length_nth_spec_chunks)
    have lst: "0 < length (last cs) \<and> length (last cs) \<le> nat K"
      unfolding cs_def using k ne by (rule length_last_spec_chunks)
    have cs_ne: "cs \<noteq> []" using cat ne by auto
    define G where "G = map NewSubTaskGroup cs"
    have G_tasks: "map tasks G = cs"
      unfolding G_def by (rule tasks_map)
    have G_len: "length G = length cs" by (simp add: G_def)
    have G_nth: "tasks (G ! j) = cs ! j" if "j < length cs" for j
      using that by (simp add: G_def NewSubTaskGroup_def)
    have G_last: "tasks (last G) = last cs"
      using cs_ne by (simp add: G_def last_map NewSubTaskGroup_def)
    have e1: "length G = (length ts + nat K - 1) div nat K"
      using len G_len by simp
    have e2: "\<forall>j<length G. tasks (G ! j) = take (nat K) (drop (j * nat K) ts)"
      using nth G_nth G_len by simp
    have e3: "\<forall>j. Suc j < length G \<longrightarrow> length (tasks (G ! j)) = nat K"
    proof (intro allI impI)
      fix j assume j: "Suc j < length G"
      then have "tasks (G ! j) = cs ! j" using G_nth G_len by simp
      then show "length (tasks (G ! j)) = nat K" using full j G_len by simp
    qed
    have e4: "0 < length (tasks (last G)) \<and> length (tasks (last G)) \<le> nat K"
      using lst G_last by simp
    have cat': "concat (map tasks G) = ts"
      using cat by (simp only: G_tasks)
    have run': "SubTaskScheduler_Schedule s ts = Some G"
      using run by (simp only: G_def)
    have ifeq: "(if K \<le> 0 \<or> int (length ts) \<le> K then A else B) = B" for A B :: bool
      using False by simp
    show ?thesis
      unfolding K_def [symmetric] ifeq using run' cat' e1 e2 e3 e4 by blast
  qed
qed

text \<open>Five sub-tasks under the cap 2: the instance of C2 with three groups.\<close>

theorem SubTaskScheduler_Schedule_groups_witness:
  "\<exists>groups. SubTaskScheduler_Schedule \<lparr>maxConcurrentNumPerPod = 2\<rparr> ''abcde'' = Some groups \<and>
     concat (map tasks groups) = ''abcde'' \<and> length groups = 3 \<and>
     (\<forall>j<length groups. tasks (groups ! j) = take 2 (drop (j * 2) ''abcde'')) \<and>
     (\<forall>j. Suc j < length groups \<longrightarrow> length (tasks (groups ! j)) = 2) \<and>
     0 < length (tasks (last groups)) \<and> length (tasks (last groups)) \<le> 2"
  using SubTaskScheduler_Schedule_groups [of "\<lparr>maxConcurrentNumPerPod = 2\<rparr>" "''abcde''"]
  by (simp add: numeral_3_eq_3)

lemma SubTaskScheduler_Schedule_example:
  "SubTaskScheduler_Schedule \<lparr>maxConcurrentNumPerPod = 2\<rparr> ''abcde'' =
     Some [\<lparr>tasks = ''ab''\<rparr>, \<lparr>tasks = ''cd''\<rparr>, \<lparr>tasks = ''e''\<rparr>]"
  by code_simp

section \<open>Masking hides the registered tokens\<close>

lemma starred_refl: "starred s s"
  by (simp add: starred_def list_all2_refl)

lemma starred_trans: "starred s t \<Longrightarrow> starred t u \<Longrightarrow> starred s u"
  unfolding starred_def
  by (erule list_all2_trans [rotated], assumption) auto

lemma starred_Cons: "starred s t \<Longrightarrow> starred (c # s) (c # t)"
  by (simp add: starred_def)

lemma starred_stars:
  "starred s t \<Longrightarrow> length p = n \<Longrightarrow> starred (p @ s) (replicate n (CHR ''*'') @ t)"
  unfolding starred_def
  by (intro list_all2_appendI) (simp_all add: list_all2_conv_all_nth)

lemma starred_replace_from:
  "starred s (replace_from old (replicate (length old) (CHR ''*'')) s)"
proof (induction old "replicate (length old) (CHR ''*'')" s rule: replace_from.induct)
  case (1 old s)
  show ?case
  proof (cases "old = [] \<or> s = []")
    case True
    then show ?thesis by (subst replace_from.simps) (simp add: starred_refl)
  next
    case False
    show ?thesis
    proof (cases "prefix old s")
      case True
      then obtain r where s: "s = old @ r" by (auto simp: prefix_def)
      have "starred (drop (length old) s)
              (replace_from old (replicate (length old) (CHR ''*'')) (drop (length old) s))"
        using False True by (intro "1.hyps"(1)) auto
      then have "starred (old @ r)
              (replicate (length old) (CHR ''*'') @ replace_from old (replicate (length old) (CHR ''*'')) r)"
        using s by (intro starred_stars) auto
      then show ?thesis using False True s
        by (subst replace_from.simps) simp
    next
      case np: False
      have "starred (tl s) (replace_from old (replicate (length old) (CHR ''*'')) (tl s))"
        using False np by (intro "1.hyps"(2)) auto
      then have "starred (hd s # tl s) (hd s # replace_from old (replicate (length old) (CHR ''*'')) (tl s))"
        by (rule starred_Cons)
      then show ?thesis using False np
        by (subst replace_from.simps) simp
    qed
  qed
qed

lemma starred_Replace_all: "starred s (Replace_all s m (Repeat (CHR ''*'') (length m)))"
proof (cases "m = []")
  case True
  then show ?thesis by (simp add: Replace_all_def Repeat_def starred_refl)
next
  case False
  then show ?thesis
    using starred_replace_from [of s m]
    by (simp add: Replace_all_def Repeat_def starred_refl)
qed

lemma starred_mask_message: "starred s (mask_message s ms)"
proof (induction ms arbitrary: s)
  case Nil
  show ?case by (simp add: starred_refl)
next
  case (Cons m ms)
  have "starred s (Replace_all s m (Repeat (CHR ''*'') (length m)))"
    by (rule starred_Replace_all)
  moreover have "starred (Replace_all s m (Repeat (CHR ''*'') (length m)))
                   (mask_message (Replace_all s m (Repeat (CHR ''*'') (length m))) ms)"
    by (rule Cons.IH)
  ultimately show ?case by (simp add: Let_def) (rule starred_trans)
qed

lemma starred_star_free:
  assumes "starred s m" "CHR ''*'' \<notin> set m"
  shows "s = m"
proof -
  have "length s = length m" using assms(1) by (simp add: starred_def list_all2_lengthD)
  moreover have "s ! i = m ! i" if "i < length s" for i
  proof -
    have "m ! i = s ! i \<or> m ! i = CHR ''*''"
      using assms(1) that by (simp add: starred_def list_all2_conv_all_nth)
    moreover have "m ! i \<in> set m" using that \<open>length s = length m\<close> by simp
    ultimately show ?thesis using assms(2) by metis
  qed
  ultimately show ?thesis by (rule nth_equalityI)
qed

lemma starred_append2:
  assumes "starred s (p @ q)"
  shows "\<exists>p' q'. s = p' @ q' \<and> starred p' p \<and> starred q' q"
  using assms unfolding starred_def by (auto simp: list_all2_append2)

lemma starred_prefix:
  assumes "starred s t" "CHR ''*'' \<notin> set m" "prefix m t"
  shows "prefix m s"
proof -
  from assms(3) obtain q where "t = m @ q" by (auto simp: prefix_def)
  with assms(1) obtain m' q' where s: "s = m' @ q'" and m': "starred m' m"
    using starred_append2 by blast
  from m' assms(2) have "m' = m" by (rule starred_star_free)
  with s show ?thesis by simp
qed

lemma starred_sublist:
  assumes "starred s t" "CHR ''*'' \<notin> set m" "sublist m t"
  shows "sublist m s"
proof -
  from assms(3) obtain p q where "t = p @ (m @ q)" by (auto simp: sublist_def)
  with assms(1) obtain p' r where s: "s = p' @ r" and r: "starred r (m @ q)"
    using starred_append2 by blast
  from r obtain m' q' where r': "r = m' @ q'" and m': "starred m' m"
    using starred_append2 by blast
  from m' assms(2) have "m' = m" by (rule starred_star_free)
  with s r' show ?thesis by (auto simp: sublist_def)
qed

lemma sublist_after_stars:
  assumes "m \<noteq> []" "CHR ''*'' \<notin> set m" "sublist m (replicate n (CHR ''*'') @ r)"
  shows "sublist m r"
proof -
  from assms(3) consider
      "sublist m (replicate n (CHR ''*''))"
    | "sublist m r"
    | xs1 xs2 where "m = xs1 @ xs2" "suffix xs1 (replicate n (CHR ''*''))" "prefix xs2 r"
    unfolding sublist_append by blast
  then show ?thesis
  proof cases
    case 1
    then have "set m \<subseteq> set (replicate n (CHR ''*''))" by (rule set_mono_sublist)
    moreover have "hd m \<in> set m" using assms(1) by simp
    ultimately have "CHR ''*'' \<in> set m" by (auto split: if_splits)
    with assms(2) show ?thesis by simp
  next
    case 2
    then show ?thesis .
  next
    case 3
    show ?thesis
    proof (cases "xs1 = []")
      case True
      with 3 show ?thesis by auto
    next
      case False
      from 3(2) have "set xs1 \<subseteq> set (replicate n (CHR ''*''))"
        by (intro set_mono_sublist suffix_imp_sublist)
      moreover have "hd xs1 \<in> set xs1" using False by simp
      ultimately have "CHR ''*'' \<in> set xs1" by (auto split: if_splits)
      with 3(1) assms(2) show ?thesis by simp
    qed
  qed
qed

lemma no_mask_after_replace_from:
  assumes "m \<noteq> []" "CHR ''*'' \<notin> set m"
  shows "\<not> sublist m (replace_from m (replicate (length m) (CHR ''*'')) s)"
  using assms
proof (induction m "replicate (length m) (CHR ''*'')" s rule: replace_from.induct)
  case (1 old s)
  let ?R = "replace_from old (replicate (length old) (CHR ''*''))"
  show ?case
  proof (cases "s = []")
    case True
    then show ?thesis using "1.prems" by (subst replace_from.simps) simp
  next
    case False
    show ?thesis
    proof (cases "prefix old s")
      case True
      have IH: "\<not> sublist old (?R (drop (length old) s))"
        using False True "1.prems" by (intro "1.hyps"(1)) auto
      have unf: "?R s = replicate (length old) (CHR ''*'') @ ?R (drop (length old) s)"
        using False True "1.prems" by (subst replace_from.simps) simp
      show ?thesis
      proof
        assume a: "sublist old (?R s)"
        have "sublist old (?R (drop (length old) s))"
          using "1.prems"(1) "1.prems"(2) a [unfolded unf] by (rule sublist_after_stars)
        with IH show False ..
      qed
    next
      case np: False
      have IH: "\<not> sublist old (?R (tl s))"
        using False np "1.prems" by (intro "1.hyps"(2)) auto
      have unf: "?R s = hd s # ?R (tl s)"
        using False np "1.prems" by (subst replace_from.simps) simp
      show ?thesis
      proof
        assume "sublist old (?R s)"
        then have "prefix old (hd s # ?R (tl s)) \<or> sublist old (?R (tl s))"
          unfolding unf by (simp only: sublist_Cons_right)
        with IH have p: "prefix old (hd s # ?R (tl s))" by blast
        have "starred (hd s # tl s) (hd s # ?R (tl s))"
          by (intro starred_Cons starred_replace_from)
        then have "prefix old (hd s # tl s)"
          using "1.prems"(2) p by (rule starred_prefix)
        with np False show False by simp
      qed
    qed
  qed
qed

lemma no_mask_after_Replace_all:
  assumes "m \<noteq> []" "CHR ''*'' \<notin> set m"
  shows "\<not> sublist m (Replace_all s m (Repeat (CHR ''*'') (length m)))"
proof -
  have "m \<noteq> replicate (length m) (CHR ''*'')"
  proof
    assume "m = replicate (length m) (CHR ''*'')"
    then have "set m = set (replicate (length m) (CHR ''*''))" by simp
    then show False using assms by simp
  qed
  then have "Replace_all s m (Repeat (CHR ''*'') (length m))
             = replace_from m (replicate (length m) (CHR ''*'')) s"
    using assms(1) by (simp add: Replace_all_def Repeat_def)
  then show ?thesis using no_mask_after_replace_from [OF assms] by simp
qed

lemma upt_0_Suc_shift: "[0..<Suc n] = 0 # map Suc [0..<n]"
  by (simp add: upt_conv_Cons map_Suc_upt)

lemma stars_at_Cons: "stars_at (c # t) (map Suc ps) n = c # stars_at t ps n"
  unfolding stars_at_def
  by (auto simp: upt_0_Suc_shift o_def simp del: upt_Suc)

lemma upt_0_add_shift: "[0..<n + k] = [0..<n] @ map (\<lambda>j. n + j) [0..<k]"
proof -
  have "map (\<lambda>j. n + j) [0..<k] = [n..<n + k]"
    using map_add_upt [of n k] by (simp add: add.commute)
  then show ?thesis using upt_add_eq_append [of 0 n k] by simp
qed

lemma stars_at_append:
  assumes "length a = n"
  shows "stars_at (a @ r) (0 # map (\<lambda>p. n + p) ps) n = replicate n (CHR ''*'') @ stars_at r ps n"
proof -
  let ?f = "\<lambda>i. if \<exists>p\<in>set (0 # map (\<lambda>p. n + p) ps). p \<le> i \<and> i < p + n then CHR ''*''
                 else (a @ r) ! i"
  have 1: "map ?f [0..<n] = replicate n (CHR ''*'')"
  proof -
    have "map ?f [0..<n] = map (\<lambda>i. CHR ''*'') [0..<n]"
      by (rule map_cong) auto
    then show ?thesis by (simp add: map_replicate_const)
  qed
  have eq: "(\<exists>p\<in>set (0 # map (\<lambda>p. n + p) ps). p \<le> n + j \<and> n + j < p + n) \<longleftrightarrow>
            (\<exists>q\<in>set ps. q \<le> j \<and> j < q + n)" for j
    by (auto simp: add.commute)
  have el: "(a @ r) ! (n + j) = r ! j" for j
    using assms by (simp add: nth_append)
  have 2: "map (\<lambda>j. ?f (n + j)) [0..<length r] = stars_at r ps n"
    unfolding stars_at_def by (rule map_cong [OF refl]) (simp only: eq el)
  have "stars_at (a @ r) (0 # map (\<lambda>p. n + p) ps) n = map ?f [0..<n + length r]"
    using assms by (simp add: stars_at_def)
  also have "\<dots> = map ?f [0..<n] @ map (\<lambda>j. ?f (n + j)) [0..<length r]"
    by (simp only: upt_0_add_shift map_append map_map o_def)
  finally show ?thesis unfolding 1 2 .
qed

lemma replace_from_stars:
  assumes "m \<noteq> []"
  shows "replace_from m (replicate (length m) (CHR ''*'')) s = masked_once s m"
  using assms
proof (induction m "replicate (length m) (CHR ''*'')" s rule: replace_from.induct)
  case (1 old s)
  let ?R = "replace_from old (replicate (length old) (CHR ''*''))"
  show ?case
  proof (cases "s = []")
    case True
    then show ?thesis
      unfolding masked_once_def
      by (subst replace_from.simps, subst occurrences.simps) (simp add: stars_at_def)
  next
    case False
    show ?thesis
    proof (cases "prefix old s")
      case True
      then obtain r where s: "s = old @ r" by (auto simp: prefix_def)
      have "?R (drop (length old) s) = masked_once (drop (length old) s) old"
        using False True "1.prems" by (intro "1.hyps"(1)) auto
      then have IH: "?R r = masked_once r old" using s by simp
      have "?R s = replicate (length old) (CHR ''*'') @ ?R r"
        using False True "1.prems" s by (subst replace_from.simps) simp
      moreover have "occurrences old s = 0 # map (\<lambda>p. length old + p) (occurrences old r)"
        using False True "1.prems" s by (subst occurrences.simps) simp
      ultimately show ?thesis
        unfolding masked_once_def s using IH stars_at_append [of old "length old" r]
        by (simp add: masked_once_def)
    next
      case np: False
      obtain c t where s: "s = c # t" using False by (cases s) auto
      have "?R (tl s) = masked_once (tl s) old"
        using False np "1.prems" by (intro "1.hyps"(2)) auto
      then have IH: "?R t = masked_once t old" using s by simp
      have "?R s = c # ?R t"
        using False np "1.prems" s by (subst replace_from.simps) simp
      moreover have "occurrences old s = map Suc (occurrences old t)"
        using False np "1.prems" s by (subst occurrences.simps) simp
      ultimately show ?thesis
        unfolding masked_once_def s using IH by (simp add: stars_at_Cons masked_once_def)
    qed
  qed
qed

lemma replace_from_same: "replace_from m m s = s"
proof (induction "length s" arbitrary: s rule: less_induct)
  case less
  show ?case
  proof (cases "m = [] \<or> s = []")
    case True
    then show ?thesis by (subst replace_from.simps) simp
  next
    case False
    show ?thesis
    proof (cases "prefix m s")
      case True
      then obtain r where s: "s = m @ r" by (auto simp: prefix_def)
      have "replace_from m m r = r" using less [of r] False s by simp
      then show ?thesis using False True s by (subst replace_from.simps) simp
    next
      case np: False
      have "replace_from m m (tl s) = tl s" using less [of "tl s"] False by simp
      then show ?thesis using False np by (subst replace_from.simps) simp
    qed
  qed
qed

lemma masked_once_empty: "masked_once s [] = s"
  by (subst masked_once_def, subst occurrences.simps) (simp add: stars_at_def map_nth)

lemma Replace_all_masked_once:
  "Replace_all s m (Repeat (CHR ''*'') (length m)) = masked_once s m"
proof (cases "m = []")
  case True
  then show ?thesis by (simp add: Replace_all_def Repeat_def masked_once_empty)
next
  case False
  show ?thesis
  proof (cases "m = replicate (length m) (CHR ''*'')")
    case True
    have "masked_once s m = replace_from m (replicate (length m) (CHR ''*'')) s"
      using replace_from_stars [OF False] by simp
    also have "\<dots> = replace_from m m s" using True by simp
    also have "\<dots> = s" by (rule replace_from_same)
    finally show ?thesis using True by (simp add: Replace_all_def Repeat_def)
  next
    case ne: False
    then show ?thesis using False replace_from_stars [OF False]
      by (simp add: Replace_all_def Repeat_def)
  qed
qed

lemma mask_message_foldl: "mask_message s ms = foldl masked_once s ms"
  by (induction ms arbitrary: s) (simp_all add: Let_def Replace_all_masked_once)

lemma no_mask_after_mask_message:
  assumes "m \<in> set ms" "m \<noteq> []" "CHR ''*'' \<notin> set m"
  shows "\<not> sublist m (mask_message s ms)"
  using assms(1)
proof (induction ms arbitrary: s)
  case Nil
  then show ?case by simp
next
  case (Cons m' ms)
  let ?s1 = "Replace_all s m' (Repeat (CHR ''*'') (length m'))"
  have unf: "mask_message s (m' # ms) = mask_message ?s1 ms" by (simp add: Let_def)
  show ?case
  proof (cases "m \<in> set ms")
    case True
    then have "\<not> sublist m (mask_message ?s1 ms)" by (rule Cons.IH)
    then show ?thesis by (subst unf)
  next
    case False
    then have m: "m = m'" using Cons.prems by simp
    have "\<not> sublist m ?s1" unfolding m [symmetric] using assms(2,3) by (rule no_mask_after_Replace_all)
    moreover have "starred ?s1 (mask_message ?s1 ms)" by (rule starred_mask_message)
    ultimately have "\<not> sublist m (mask_message ?s1 ms)"
      using assms(3) starred_sublist by blast
    then show ?thesis by (subst unf)
  qed
qed

text \<open>
  Claim C8, amended. For every message and every list of masks, \<open>MaskedMessage.Filter\<close>
  returns the message in which, mask by mask in the order of registration, every
  occurrence of the mask, found from the left without overlap in the text as masked so
  far, is overwritten by \<open>*\<close> repeated to the length of the mask; an empty mask changes
  nothing. The result has the length of the message and differs from it only where a
  byte was overwritten by \<open>*\<close>, and no registered mask that is non-empty and contains no
  \<open>*\<close> is a substring of it, whatever the other masks are.
\<close>

theorem Filter_overwrites_masks:
  "Filter mm message = foldl masked_once message (masks mm) \<and>
   length (Filter mm message) = length message \<and>
   (\<forall>i<length message.
      Filter mm message ! i = message ! i \<or> Filter mm message ! i = CHR ''*'') \<and>
   (\<forall>m\<in>set (masks mm). m \<noteq> [] \<and> CHR ''*'' \<notin> set m \<longrightarrow> \<not> sublist m (Filter mm message))"
proof -
  have eq: "Filter mm message = foldl masked_once message (masks mm)"
    by (simp add: Filter_def mask_message_foldl)
  have st: "starred message (Filter mm message)"
    unfolding Filter_def by (rule starred_mask_message)
  then have len: "length (Filter mm message) = length message"
    by (simp add: starred_def list_all2_lengthD)
  have pt: "\<forall>i<length message.
            Filter mm message ! i = message ! i \<or> Filter mm message ! i = CHR ''*''"
    using st by (simp add: starred_def list_all2_conv_all_nth)
  have hid: "\<forall>m\<in>set (masks mm). m \<noteq> [] \<and> CHR ''*'' \<notin> set m \<longrightarrow> \<not> sublist m (Filter mm message)"
    unfolding Filter_def by (auto intro: no_mask_after_mask_message [THEN notE])
  from eq len pt hid show ?thesis by blast
qed

theorem Filter_overwrites_masks_witness:
  "Filter blank_mask_example ''push with s3cr3t'' =
     foldl masked_once ''push with s3cr3t'' (masks blank_mask_example) \<and>
   length (Filter blank_mask_example ''push with s3cr3t'') = length ''push with s3cr3t'' \<and>
   \<not> sublist ''s3cr3t'' (Filter blank_mask_example ''push with s3cr3t'')"
proof -
  note t = Filter_overwrites_masks [of blank_mask_example "''push with s3cr3t''"]
  have m: "''s3cr3t'' \<in> set (masks blank_mask_example)" by (simp add: blank_mask_example_def)
  have ok: "''s3cr3t'' \<noteq> [] \<and> CHR ''*'' \<notin> set ''s3cr3t''" by simp
  from t have "\<forall>m\<in>set (masks blank_mask_example).
      m \<noteq> [] \<and> CHR ''*'' \<notin> set m \<longrightarrow> \<not> sublist m (Filter blank_mask_example ''push with s3cr3t'')"
    by (elim conjE)
  then have "\<not> sublist ''s3cr3t'' (Filter blank_mask_example ''push with s3cr3t'')"
    using m ok by blast
  with t show ?thesis by (elim conjE) (intro conjI)
qed

lemma masked_once_example:
  "occurrences ''ab'' ''xababab'' = [1, 3, 5] \<and>
   masked_once ''xababab'' ''ab'' = ''x******'' \<and>
   occurrences ''aa'' ''aaaxa'' = [0] \<and>
   masked_once ''aaaxa'' ''aa'' = ''**axa'' \<and>
   foldl masked_once ''push with s3cr3t'' [[], ''s3cr3t''] = ''push with ******''"
  by code_simp

lemma Filter_blank_mask_example:
  "Filter blank_mask_example ''push with s3cr3t'' = ''push with ******''"
  by code_simp

lemma Filter_example:
  "Filter example_masks ''a tok and s3cr3t, tokens'' = ''a *** and ******, ***ens''"
  by code_simp

text \<open>
  The claim as stated, for every mask list, fails: a mask that contains \<open>*\<close> can
  reappear next to the asterisks written for it, and the empty mask is a substring of
  every output.
\<close>

theorem Filter_counterexample:
  "Filter \<lparr>msg = [], masks = [''a*'']\<rparr> ''aa*'' = ''a**'' \<and> sublist ''a*'' ''a**'' \<and>
   Filter \<lparr>msg = [], masks = [[]]\<rparr> ''x'' = ''x'' \<and> sublist [] ''x''"
  by code_simp

section \<open>Sub-task results\<close>

lemma SubTask_Run_fields:
  "Err (fst (SubTask_Run t)) = snd (exec_Output (exec t))"
  "ArtifactErr (fst (SubTask_Run t)) = copyArtifact t"
  "Status (fst (SubTask_Run t)) =
     (if snd (exec_Output (exec t)) = None \<and> copyArtifact t = None
      then TaskResultSuccess else TaskResultFailure)"
  "snd (SubTask_Run t) = None"
  by (auto simp: SubTask_Run_def Let_def split: prod.splits option.splits)

text \<open>
  Claim C4. The result that \<open>SubTask.Run\<close> returns has status failure if and only if its
  \<open>Err\<close> or its \<open>ArtifactErr\<close> is not nil, and status success exactly when both are nil;
  \<open>Err\<close> is the error of the command and \<open>ArtifactErr\<close> the error of the artifact copy.
\<close>

theorem SubTask_Run_status:
  "(Status (fst (SubTask_Run t)) = TaskResultFailure \<longleftrightarrow>
      Err (fst (SubTask_Run t)) \<noteq> None \<or> ArtifactErr (fst (SubTask_Run t)) \<noteq> None) \<and>
   (Status (fst (SubTask_Run t)) = TaskResultSuccess \<longleftrightarrow>
      Err (fst (SubTask_Run t)) = None \<and> ArtifactErr (fst (SubTask_Run t)) = None) \<and>
   Err (fst (SubTask_Run t)) = snd (exec_Output (exec t)) \<and>
   ArtifactErr (fst (SubTask_Run t)) = copyArtifact t"
  by (simp add: SubTask_Run_fields)

text \<open>A failing command with a successful artifact copy.\<close>

theorem SubTask_Run_status_witness:
  "Status (fst (SubTask_Run failing_subtask)) = TaskResultFailure \<and>
   Err (fst (SubTask_Run failing_subtask)) = Some ''exit status 1'' \<and>
   ArtifactErr (fst (SubTask_Run failing_subtask)) = None"
  using SubTask_Run_status [of failing_subtask]
  by (simp add: failing_subtask_def)

lemma goroutines_results:
  "goroutines ts (eg, rg) = (eg, rg @ map (\<lambda>t. fst (SubTask_Run t)) ts)"
proof (induction ts arbitrary: rg)
  case Nil
  show ?case by simp
next
  case (Cons t ts)
  obtain result where "SubTask_Run t = (result, None)"
    using SubTask_Run_fields(4) [of t] by (cases "SubTask_Run t") auto
  then show ?case using Cons.IH by simp
qed

lemma mset_map_nth_permutation:
  assumes "mset finished = mset [0..<length ts]"
  shows "mset (map (\<lambda>i. f (ts ! i)) finished) = image_mset f (mset ts)"
proof -
  have "mset (map (\<lambda>i. f (ts ! i)) finished) = image_mset (\<lambda>i. f (ts ! i)) (mset finished)"
    by simp
  also have "\<dots> = image_mset (\<lambda>i. f (ts ! i)) (mset [0..<length ts])"
    by (simp only: assms)
  also have "\<dots> = mset (map (\<lambda>i. f (ts ! i)) [0..<length ts])"
    by simp
  also have "map (\<lambda>i. f (ts ! i)) [0..<length ts] = map f (map (\<lambda>i. ts ! i) [0..<length ts])"
    by simp
  also have "map (\<lambda>i. ts ! i) [0..<length ts] = ts"
    by (rule map_nth)
  finally show ?thesis by simp
qed

text \<open>
  Claim C9. \<open>SubTask.Run\<close> always returns a nil error. \<open>SubTaskGroup.Run\<close> over \<open>n\<close>
  sub-tasks, in whatever order their goroutines finish, returns a nil error and a result
  group with exactly one result per sub-task, namely the result of running that sub-task;
  by C4 the command and artifact-copy failures are the status and error fields of these
  results.
\<close>

theorem SubTask_errors_stay_in_results:
  "snd (SubTask_Run t) = None \<and>
   (mset finished = mset [0..<length (tasks g)] \<longrightarrow>
      (\<exists>rg. SubTaskGroup_Run g finished = (Some rg, None) \<and>
            length (results rg) = length (tasks g) \<and>
            results rg = map (\<lambda>i. fst (SubTask_Run (tasks g ! i))) finished \<and>
            mset (results rg) = image_mset (\<lambda>t. fst (SubTask_Run t)) (mset (tasks g))))"
proof (intro conjI impI)
  show "snd (SubTask_Run t) = None" by (rule SubTask_Run_fields(4))
next
  assume perm: "mset finished = mset [0..<length (tasks g)]"
  define rs where "rs = map (\<lambda>i. fst (SubTask_Run (tasks g ! i))) finished"
  have run: "SubTaskGroup_Run g finished = (Some \<lparr>results = rs\<rparr>, None)"
    by (simp add: SubTaskGroup_Run_def goroutines_results rs_def comp_def)
  have "length finished = length (tasks g)"
    using perm by (metis length_upt mset_eq_length minus_nat.diff_0)
  then have len: "length rs = length (tasks g)" by (simp add: rs_def)
  have ms: "mset rs = image_mset (\<lambda>t. fst (SubTask_Run t)) (mset (tasks g))"
    unfolding rs_def using perm by (rule mset_map_nth_permutation)
  show "\<exists>rg. SubTaskGroup_Run g finished = (Some rg, None) \<and>
            length (results rg) = length (tasks g) \<and>
            results rg = map (\<lambda>i. fst (SubTask_Run (tasks g ! i))) finished \<and>
            mset (results rg) = image_mset (\<lambda>t. fst (SubTask_Run t)) (mset (tasks g))"
    using run len ms by (intro exI [of _ "\<lparr>results = rs\<rparr>"]) (simp add: rs_def)
qed

text \<open>Two sub-tasks, the second finishing first; both fail, neither error is returned.\<close>

theorem SubTask_errors_stay_in_results_witness:
  "snd (SubTask_Run failing_subtask) = None \<and>
   (\<exists>rg. SubTaskGroup_Run \<lparr>tasks = [failing_subtask, passing_subtask]\<rparr> [1, 0] = (Some rg, None) \<and>
         length (results rg) = 2 \<and>
         map Status (results rg) = [TaskResultFailure, TaskResultFailure] \<and>
         map Err (results rg) = [None, Some ''exit status 1''] \<and>
         map ArtifactErr (results rg) = [Some ''no such file'', None])"
proof -
  have perm: "mset [1, 0] = mset [0..<length (tasks \<lparr>tasks = [failing_subtask, passing_subtask]\<rparr>)]"
    by (simp add: upt_rec)
  have st: "map (\<lambda>i. fst (SubTask_Run ([failing_subtask, passing_subtask] ! i))) [1, 0]
            = [fst (SubTask_Run passing_subtask), fst (SubTask_Run failing_subtask)]"
    by simp
  show ?thesis
    using SubTask_errors_stay_in_results
      [of failing_subtask "[1, 0]" "\<lparr>tasks = [failing_subtask, passing_subtask]\<rparr>"] perm
    by (auto simp: st SubTask_Run_fields failing_subtask_def passing_subtask_def)
qed

section \<open>The environment of a local command\<close>

lemma cmd_env_loop_Env:
  "slice_of (cmd_Env (cmd_env_loop envs cmd)) = slice_of (cmd_Env cmd) @ env_entries envs \<and>
   (cmd_Env (cmd_env_loop envs cmd) = None \<longleftrightarrow>
      cmd_Env cmd = None \<and> (\<forall>env\<in>set envs. env_Value env = []))"
proof (induction envs arbitrary: cmd)
  case Nil
  show ?case by (simp add: env_entries_def)
next
  case (Cons env envs)
  show ?case
  proof (cases "env_Value env = []")
    case True
    then show ?thesis using Cons.IH [of cmd] by (simp add: env_entries_def)
  next
    case False
    let ?cmd = "cmd\<lparr>cmd_Env := append_nil (cmd_Env cmd) (env_Name env @ ''='' @ env_Value env)\<rparr>"
    have "slice_of (cmd_Env ?cmd) = slice_of (cmd_Env cmd) @ [env_Name env @ ''='' @ env_Value env]"
      and "cmd_Env ?cmd \<noteq> None"
      by (auto simp: append_nil_def slice_of_def split: option.splits)
    then show ?thesis using False Cons.IH [of ?cmd] by (simp add: env_entries_def)
  qed
qed

lemma cmd_env_loop_other:
  "cmd_Path (cmd_env_loop envs cmd) = cmd_Path cmd \<and> cmd_Args (cmd_env_loop envs cmd) = cmd_Args cmd"
  by (induction envs arbitrary: cmd) auto

lemma exec_Command_Env: "cmd_Env (exec_Command LookPath name arg) = None"
  by (simp add: exec_Command_def Let_def split: prod.splits)

lemma exec_Command_Args: "cmd_Args (exec_Command LookPath name arg) = name # arg"
  by (simp add: exec_Command_def Let_def split: prod.splits)

text \<open>
  Claim C10. The command that \<open>localJobExecutor.cmd\<close> builds for \<open>Output\<close> carries in its
  environment exactly the entries \<open>NAME=VALUE\<close> of the container's environment variables
  whose value is non-empty, in their order; a variable with an empty value has no entry.
  The environment field stays nil exactly when every value is empty.
\<close>

theorem localJobExecutor_cmd_Env:
  assumes "localJobExecutor_cmd LookPath e = Inr cmd"
  shows "slice_of (cmd_Env cmd) =
           map (\<lambda>env. env_Name env @ ''='' @ env_Value env)
             (filter (\<lambda>env. env_Value env \<noteq> []) (Env (container e))) \<and>
         (cmd_Env cmd = None \<longleftrightarrow> (\<forall>env\<in>set (Env (container e)). env_Value env = [])) \<and>
         cmd_Args cmd = Command (container e) @ Args (container e)"
proof -
  define cmdarr where "cmdarr = Command (container e) @ Args (container e)"
  define cmd0 where "cmd0 = (if length cmdarr = 1 then exec_Command LookPath (hd cmdarr) []
                    else exec_Command LookPath (hd cmdarr) (tl cmdarr))"
  have ne: "cmdarr \<noteq> []"
    using assms by (auto simp: localJobExecutor_cmd_def cmdarr_def Let_def split: if_splits)
  have cmd: "cmd = (cmd_env_loop (Env (container e)) cmd0)
                     \<lparr>cmd_Dir := filepath_Join [rootDir e, WorkingDir (container e)]\<rparr>"
    using assms ne unfolding localJobExecutor_cmd_def cmdarr_def [symmetric] Let_def cmd0_def
    by (simp split: if_splits)
  have env0: "cmd_Env cmd0 = None"
    by (simp add: cmd0_def exec_Command_Env)
  have args0: "cmd_Args cmd0 = cmdarr"
    using ne by (cases cmdarr) (auto simp: cmd0_def exec_Command_Args)
  show ?thesis
    using cmd_env_loop_Env [of "Env (container e)" cmd0] cmd_env_loop_other [of "Env (container e)" cmd0]
    by (simp add: cmd env0 args0 slice_of_def env_entries_def cmdarr_def)
qed

lemma localJobExecutor_cmd_example:
  "localJobExecutor_cmd example_LookPath example_executor =
     Inr \<lparr>cmd_Path = ''/usr/bin/sh'', cmd_Args = [''sh'', ''-c'', ''exit 1''],
          cmd_Env = Some [''TEST=A'', ''MODE=ci''], cmd_Dir = ''/tmp/root1/work'',
          cmd_Err = None\<rparr>"
  by code_simp

theorem localJobExecutor_cmd_Env_witness:
  "\<exists>cmd. localJobExecutor_cmd example_LookPath example_executor = Inr cmd \<and>
     cmd_Env cmd = Some [''TEST=A'', ''MODE=ci'']"
proof -
  obtain cmd where c: "localJobExecutor_cmd example_LookPath example_executor = Inr cmd"
    by (simp add: localJobExecutor_cmd_def example_executor_def example_container_def Let_def)
  from localJobExecutor_cmd_Env [OF c]
  have "slice_of (cmd_Env cmd) = [''TEST=A'', ''MODE=ci'']" and "cmd_Env cmd \<noteq> None"
    by (simp_all add: example_executor_def example_container_def)
  then have "cmd_Env cmd = Some [''TEST=A'', ''MODE=ci'']"
    by (auto simp: slice_of_def)
  with c show ?thesis by blast
qed

section \<open>The pods of a strategy\<close>

lemma Schedule_tasks_pod_keys:
  assumes M: "0 < MaxContainersPerPod strategy"
    and build: "\<And>k. BuildWithKey c tmpl (Some k) = Inr (f k)"
    and i: "0 \<le> i" "i \<le> int (length keys) div MaxContainersPerPod strategy + 1"
  shows "Schedule_tasks c tmpl strategy keys (int (length keys) div MaxContainersPerPod strategy) i
           (i * MaxContainersPerPod strategy) ts =
         Some (Inr (NewTaskGroup (ts @ map (\<lambda>j. f (pod_key strategy keys j))
                      [i..int (length keys) div MaxContainersPerPod strategy])))"
  using i
proof (induction "nat (int (length keys) div MaxContainersPerPod strategy + 1 - i)"
         arbitrary: i ts rule: less_induct)
  case less
  define M where "M = MaxContainersPerPod strategy"
  define N where "N = int (length keys)"
  define q where "q = N div M"
  have Mpos: "0 < M" using M by (simp add: M_def)
  have nN: "nat N = length keys" by (simp add: N_def)
  show ?case
  proof (cases "i \<le> q")
    case False
    then have "[i..q] = []" by simp
    then show ?thesis using False
      unfolding M_def [symmetric] N_def [symmetric] q_def [symmetric]
      by (subst Schedule_tasks.simps) (simp add: M_def [symmetric] N_def [symmetric] q_def [symmetric] Let_def)
  next
    case True
    have "N = q * M + N mod M" by (simp add: q_def)
    moreover have "0 \<le> N mod M" using Mpos by simp
    ultimately have qM: "q * M \<le> N" by linarith
    have iM: "i * M \<le> q * M" using True Mpos by (simp add: mult_right_mono)
    have sl: "(if i = q then slice_from keys (i * M) else slice keys (i * M) (i * M + M))
              = Some (Keys (pod_key strategy keys i))"
    proof (cases "i = q")
      case True
      then show ?thesis using qM less.prems Mpos
        by (simp add: slice_from_def slice_def pod_key_def M_def [symmetric] N_def [symmetric]
              q_def [symmetric] Let_def nat_diff_distrib nN)
    next
      case False
      then have "i + 1 \<le> q" using True by simp
      then have "(i + 1) * M \<le> q * M" using Mpos by (simp only: mult_right_mono)
      then have "i * M + M \<le> N" using qM by (simp add: algebra_simps)
      then show ?thesis using False less.prems Mpos
        by (simp add: slice_def pod_key_def M_def [symmetric] N_def [symmetric]
              q_def [symmetric] Let_def)
    qed
    have key: "\<lparr>ConcurrentIdx = i, Keys = Keys (pod_key strategy keys i), key_Env = Key_Env strategy,
                key_SubTaskScheduler = NewSubTaskScheduler (MaxConcurrentNumPerPod strategy)\<rparr>
               = pod_key strategy keys i"
      by (simp add: pod_key_def Let_def)
    have IH: "Schedule_tasks c tmpl strategy keys q (i + 1) ((i + 1) * M) (ts @ [f (pod_key strategy keys i)])
              = Some (Inr (NewTaskGroup ((ts @ [f (pod_key strategy keys i)]) @
                     map (\<lambda>j. f (pod_key strategy keys j)) [i + 1..q])))"
      unfolding q_def N_def M_def
      using True less.prems by (intro less.hyps) (auto simp: q_def N_def M_def)
    have step: "i * M + M = (i + 1) * M" by (simp add: algebra_simps)
    have upto: "[i..q] = i # [i + 1..q]" using True by (simp add: upto_rec1)
    show ?thesis
      unfolding M_def [symmetric] N_def [symmetric] q_def [symmetric]
      using True
      by (subst Schedule_tasks.simps)
         (simp add: M_def [symmetric] Let_def sl key build step IH upto)
  qed
qed


lemma ceil_div_nat:
  assumes "0 < (m::nat)"
  shows "(n + m - 1) div m = n div m + (if n mod m = 0 then 0 else 1)"
proof (cases "n mod m = 0")
  case True
  then have "m dvd n" by (simp add: dvd_eq_mod_eq_0)
  then obtain k where "n = m * k" by (elim dvdE)
  then have n: "n = k * m" by (simp add: mult.commute)
  have "m * k \<le> k * m + m - 1" "k * m + m - 1 < m * Suc k"
    using assms by (simp_all add: mult.commute)
  then have "(k * m + m - 1) div m = k" by (rule div_nat_eqI)
  then show ?thesis using True n assms by simp
next
  case False
  define k where "k = n div m"
  define r where "r = n mod m"
  have n: "n = k * m + r" by (simp add: k_def r_def)
  have r: "0 < r" "r < m" using False assms by (simp_all add: r_def)
  have "m * Suc k \<le> n + m - 1" "n + m - 1 < m * Suc (Suc k)"
    using r n by (simp_all add: mult.commute)
  then have "(n + m - 1) div m = Suc k" by (rule div_nat_eqI)
  then show ?thesis using False by (simp add: k_def)
qed

lemma pod_key_slices:
  assumes M: "0 < MaxContainersPerPod strategy"
  shows "map (\<lambda>j. Keys (pod_key strategy keys j)) [0..int (length keys) div MaxContainersPerPod strategy]
         = spec_chunks (nat (MaxContainersPerPod strategy)) keys @
           (if int (length keys) mod MaxContainersPerPod strategy = 0 then [[]] else [])"
    (is "?L = ?R")
proof -
  define m where "m = nat (MaxContainersPerPod strategy)"
  define n where "n = length keys"
  have M_eq: "MaxContainersPerPod strategy = int m" using M by (simp add: m_def)
  have m: "0 < m" using M by (simp add: m_def)
  have q: "int n div int m = int (n div m)" by (simp add: zdiv_int)
  have md: "int n mod int m = 0 \<longleftrightarrow> n mod m = 0"
    by (metis of_nat_eq_0_iff zmod_int)
  have lenL: "length ?L = n div m + 1"
    unfolding M_eq n_def [symmetric] q by simp
  have lenC: "length (spec_chunks m keys) = n div m + (if n mod m = 0 then 0 else 1)"
  proof -
    have "length (spec_chunks m keys) = (n + m - 1) div m"
      using m by (simp add: length_spec_chunks n_def)
    then show ?thesis by (simp only: ceil_div_nat [OF m])
  qed
  have lenR: "length ?R = n div m + 1"
    unfolding M_eq n_def [symmetric] md m_def [symmetric] using lenC by simp
  have nth: "?L ! j = ?R ! j" if j: "j < n div m + 1" for j
  proof -
    have up: "[0..int (n div m)] ! j = int j"
      using j by (subst nth_upto) auto
    have Lj: "?L ! j = Keys (pod_key strategy keys (int j))"
      unfolding M_eq n_def [symmetric] q using j up by simp
    have Kj: "Keys (pod_key strategy keys (int j)) =
          (if j = n div m then drop (j * m) keys else take m (drop (j * m) keys))"
      by (simp add: pod_key_def Let_def M_eq n_def [symmetric] q nat_mult_distrib)
    show ?thesis
    proof (cases "j < length (spec_chunks m keys)")
      case True
      then have Rj: "?R ! j = take m (drop (j * m) keys)"
        unfolding m_def [symmetric] using m by (simp add: nth_append nth_spec_chunks)
      show ?thesis
      proof (cases "j = n div m")
        case False
        then show ?thesis using Lj Kj Rj by simp
      next
        case eq: True
        have "n - j * m = n mod m" unfolding eq
          by (metis minus_div_mult_eq_mod)
        then have "length (drop (j * m) keys) \<le> m"
          using m by (simp add: n_def [symmetric] less_imp_le)
        then show ?thesis using Lj Kj Rj eq by simp
      qed
    next
      case False
      then have jlen: "j = length (spec_chunks m keys)" and dv: "n mod m = 0" and jq: "j = n div m"
        using j lenC by (auto split: if_splits)
      from dv have "m dvd n" by (simp add: dvd_eq_mod_eq_0)
      then obtain k where k: "n = m * k" by (elim dvdE)
      then have "j = k" using jq m by simp
      then have "j * m = n" using k by (simp add: mult.commute)
      then have "drop (j * m) keys = []" by (simp add: n_def)
      moreover have "?R ! j = []"
        unfolding M_eq n_def [symmetric] md m_def [symmetric] using dv jlen by (simp add: nth_append)
      ultimately show ?thesis using Lj Kj jq by simp
    qed
  qed
  show ?thesis
    by (rule nth_equalityI) (use lenL lenR nth in auto)
qed


lemma TaskScheduler_Schedule_pods:
  assumes keys: "getScheduleKeys c (Key_Source strategy) = Inr keys"
    and M: "0 < MaxContainersPerPod strategy" "MaxContainersPerPod strategy < int (length keys)"
    and build: "\<And>k. BuildWithKey c tmpl (Some k) = Inr (f k)"
  shows "TaskScheduler_Schedule c (Some strategy) tmpl =
         Some (Inr (NewTaskGroup (map (\<lambda>j. f (pod_key strategy keys j))
                      [0..int (length keys) div MaxContainersPerPod strategy])))"
proof -
  have ne: "keys \<noteq> []" using M by auto
  have dv: "go_div (int (length keys)) (MaxContainersPerPod strategy)
            = Some (int (length keys) div MaxContainersPerPod strategy)"
    using M ne by (simp add: go_div_def)
  have "0 \<le> int (length keys) div MaxContainersPerPod strategy"
    using M(1) by (intro pos_imp_zdiv_nonneg_iff [THEN iffD2]) simp_all
  then have "Schedule_tasks c tmpl strategy keys (int (length keys) div MaxContainersPerPod strategy) 0
           (0 * MaxContainersPerPod strategy) [] =
         Some (Inr (NewTaskGroup ([] @ map (\<lambda>j. f (pod_key strategy keys j))
                      [0..int (length keys) div MaxContainersPerPod strategy])))"
    using M(1) build by (intro Schedule_tasks_pod_keys) auto
  then show ?thesis
    using M by (simp add: TaskScheduler_Schedule_def keys Let_def dv)
qed

lemma TaskScheduler_Schedule_key_slices:
  assumes "keys \<noteq> []" "0 < M" "M < int (length keys)"
  shows "\<exists>ts. TaskScheduler_Schedule key_recorder (Some (static_strategy keys M)) () =
               Some (Inr (NewTaskGroup ts)) \<and>
              map (\<lambda>t. Keys (the t)) ts =
                spec_chunks (nat M) keys @ (if int (length keys) mod M = 0 then [[]] else [])"
proof -
  let ?st = "static_strategy keys M"
  have M_eq: "MaxContainersPerPod ?st = M" by (simp add: static_strategy_def)
  have src: "getScheduleKeys key_recorder (Key_Source ?st) = Inr keys"
    using assms(1) by (simp add: getScheduleKeys_def static_strategy_def)
  have build: "\<And>k. BuildWithKey key_recorder () (Some k) = Inr (Some k)"
    by (simp add: key_recorder_def)
  have run: "TaskScheduler_Schedule key_recorder (Some ?st) () =
         Some (Inr (NewTaskGroup (map (\<lambda>j. Some (pod_key ?st keys j)) [0..int (length keys) div M])))"
    using TaskScheduler_Schedule_pods [of key_recorder ?st keys "()" Some, OF src _ _ build] assms
    by (simp add: M_eq)
  have "map (\<lambda>t. Keys (the t)) (map (\<lambda>j. Some (pod_key ?st keys j)) [0..int (length keys) div M])
        = map (\<lambda>j. Keys (pod_key ?st keys j)) [0..int (length keys) div M]"
    by simp
  also have "\<dots> = spec_chunks (nat M) keys @ (if int (length keys) mod M = 0 then [[]] else [])"
    using pod_key_slices [of ?st keys] assms(2) by (simp add: M_eq)
  finally show ?thesis using run by blast
qed

text \<open>
  Claim C1 says that \<open>N\<close> keys under a cap \<open>M < N\<close> give \<open>\<lceil>N/M\<rceil>\<close> tasks whose last key
  slice is not empty. With four keys and the cap 2 the scheduler returns three tasks, the
  last one without keys: the loop runs for \<open>i = 0, \<dots>, N div M\<close> and so one time too many
  whenever \<open>M\<close> divides \<open>N\<close> (lemma \<open>TaskScheduler_Schedule_key_slices\<close> gives the slices
  for every \<open>0 < M < N\<close>).
\<close>

theorem TaskScheduler_Schedule_empty_last_task:
  "TaskScheduler_Schedule key_recorder (Some (static_strategy [''A'', ''B'', ''C'', ''D''] 2)) () =
     Some (Inr \<lparr>group_tasks =
       [Some \<lparr>ConcurrentIdx = 0, Keys = [''A'', ''B''], key_Env = ''TEST'',
              key_SubTaskScheduler = \<lparr>maxConcurrentNumPerPod = 0\<rparr>\<rparr>,
        Some \<lparr>ConcurrentIdx = 1, Keys = [''C'', ''D''], key_Env = ''TEST'',
              key_SubTaskScheduler = \<lparr>maxConcurrentNumPerPod = 0\<rparr>\<rparr>,
        Some \<lparr>ConcurrentIdx = 2, Keys = [], key_Env = ''TEST'',
              key_SubTaskScheduler = \<lparr>maxConcurrentNumPerPod = 0\<rparr>\<rparr>]\<rparr>)"
  by code_simp

lemma TaskScheduler_Schedule_five_keys:
  "TaskScheduler_Schedule key_recorder (Some (static_strategy [''A'', ''B'', ''C'', ''D'', ''E''] 2)) () =
     Some (Inr \<lparr>group_tasks =
       [Some \<lparr>ConcurrentIdx = 0, Keys = [''A'', ''B''], key_Env = ''TEST'',
              key_SubTaskScheduler = \<lparr>maxConcurrentNumPerPod = 0\<rparr>\<rparr>,
        Some \<lparr>ConcurrentIdx = 1, Keys = [''C'', ''D''], key_Env = ''TEST'',
              key_SubTaskScheduler = \<lparr>maxConcurrentNumPerPod = 0\<rparr>\<rparr>,
        Some \<lparr>ConcurrentIdx = 2, Keys = [''E''], key_Env = ''TEST'',
              key_SubTaskScheduler = \<lparr>maxConcurrentNumPerPod = 0\<rparr>\<rparr>]\<rparr>)"
  by code_simp

section \<open>Dynamic keys\<close>

lemma dynamicKeys_loop_filter:
  "dynamicKeys_loop flt pieces keys =
     keys @ filter (\<lambda>k. TrimSpace k \<noteq> [] \<and> (case flt of None \<Rightarrow> True | Some re \<Rightarrow> re k)) pieces"
  by (induction pieces arbitrary: keys) (auto split: option.splits)

text \<open>
  Claim C3. When the key step is built and run and reports exactly one main result with
  output \<open>out\<close>, and the filter is unset or compiles, \<open>dynamicKeys\<close> returns the pieces
  \<open>k\<close> of \<open>Split(out, delim)\<close>, with the delimiter \<open>"\n"\<close> when it is unset, for which
  \<open>TrimSpace(k)\<close> is not empty and which match the filter when one is set, in their order.
  When the step reports no main result or more than one, \<open>dynamicKeys\<close> returns an error
  and no keys.
\<close>

theorem dynamicKeys_result:
  assumes "Build c (dyn_Spec source) = Inr keyTask" and "Task_Run c keyTask = Inr result"
  shows "(MainTaskResults c result = [r] \<and>
          (dyn_Filter source \<noteq> [] \<longrightarrow> regexp_Compile c (dyn_Filter source) = Inr re) \<longrightarrow>
            dynamicKeys c source =
              Inr (filter (\<lambda>k. TrimSpace k \<noteq> [] \<and> (dyn_Filter source = [] \<or> re k))
                     (Split (Out r) (if dyn_Delim source = [] then ''\<newline>'' else dyn_Delim source)))) \<and>
         (length (MainTaskResults c result) \<noteq> 1 \<longrightarrow> (\<exists>err. dynamicKeys c source = Inl err))"
proof (intro conjI impI)
  assume a: "MainTaskResults c result = [r] \<and>
          (dyn_Filter source \<noteq> [] \<longrightarrow> regexp_Compile c (dyn_Filter source) = Inr re)"
  show "dynamicKeys c source =
          Inr (filter (\<lambda>k. TrimSpace k \<noteq> [] \<and> (dyn_Filter source = [] \<or> re k))
                 (Split (Out r) (if dyn_Delim source = [] then ''\<newline>'' else dyn_Delim source)))"
  proof (cases "dyn_Filter source = []")
    case True
    then show ?thesis using assms a
      by (simp add: dynamicKeys_def sourceFilter_def sourceDelim_def dynamicKeys_loop_filter Let_def)
  next
    case False
    then show ?thesis using assms a
      by (simp add: dynamicKeys_def sourceFilter_def sourceDelim_def dynamicKeys_loop_filter Let_def)
  qed
next
  assume "length (MainTaskResults c result) \<noteq> 1"
  then show "\<exists>err. dynamicKeys c source = Inl err"
    using assms by (cases "MainTaskResults c result") (auto simp: dynamicKeys_def Let_def)
qed

lemma dynamicKeys_example:
  "dynamicKeys key_step \<lparr>dyn_Spec = ''A\<newline>B\<newline>C\<newline>D'', dyn_Delim = [], dyn_Filter = []\<rparr>
     = Inr [''A'', ''B'', ''C'', ''D'']"
  by code_simp

theorem dynamicKeys_result_witness:
  "dynamicKeys key_step \<lparr>dyn_Spec = ''t1, ,x2,t3'', dyn_Delim = '','', dyn_Filter = ''t''\<rparr> =
     Inr (filter (\<lambda>k. TrimSpace k \<noteq> [] \<and> sublist ''t'' k) (Split ''t1, ,x2,t3'' '',''))"
  using dynamicKeys_result
    [of key_step "\<lparr>dyn_Spec = ''t1, ,x2,t3'', dyn_Delim = '','', dyn_Filter = ''t''\<rparr>"
        "''t1, ,x2,t3''" "[key_step_result ''t1, ,x2,t3'']" "key_step_result ''t1, ,x2,t3''"
        "\<lambda>s. sublist ''t'' s"]
  by (simp add: key_step_def Build_def key_step_result_def)

lemma dynamicKeys_witness_value:
  "filter (\<lambda>k. TrimSpace k \<noteq> [] \<and> sublist ''t'' k) (Split ''t1, ,x2,t3'' '','') = [''t1'', ''t3'']"
  by code_simp

section \<open>The task builder\<close>

subsection \<open>The loop of newTaskContainer\<close>

lemma mount_step_pure:
  assumes "a < length h" "idx < length (h ! a)"
  shows "mount_step vtv a idx (h, tc) =
           (h[a := (h ! a)[idx := rewritten vtv (h ! a ! idx)]], collected vtv (h ! a ! idx) tc)"
  using assms
  by (simp add: mount_step_def rewritten_def collected_def staging_path_def set_MountPath_def Let_def
           split: option.splits)

lemma fold_mount_step:
  assumes "a < length h" "k \<le> length (h ! a)"
  shows "fold (mount_step vtv a) [0..<k] (h, tc) =
           (h[a := map (rewritten vtv) (take k (h ! a)) @ drop k (h ! a)],
            fold (collected vtv) (take k (h ! a)) tc)"
  using assms(2)
proof (induction k)
  case 0
  then show ?case by simp
next
  case (Suc k)
  define xs where "xs = h ! a"
  define ys where "ys = map (rewritten vtv) (take k xs) @ drop k xs"
  define hk where "hk = h[a := ys]"
  define tk where "tk = fold (collected vtv) (take k xs) tc"
  have k: "k < length xs" using Suc.prems by (simp add: xs_def)
  have IH: "fold (mount_step vtv a) [0..<k] (h, tc) = (hk, tk)"
    using Suc by (simp add: hk_def ys_def tk_def xs_def)
  have cell: "hk ! a = ys"
    using assms(1) by (simp add: hk_def)
  have len: "length hk = length h" by (simp add: hk_def)
  have ylen: "length ys = length xs" using k by (simp add: ys_def)
  have elem: "ys ! k = xs ! k"
    using k by (simp add: ys_def nth_append)
  have upd: "ys[k := rewritten vtv (xs ! k)]
             = map (rewritten vtv) (take (Suc k) xs) @ drop (Suc k) xs"
  proof -
    have "drop k xs = xs ! k # drop (Suc k) xs"
      using k by (simp add: Cons_nth_drop_Suc)
    moreover have "length (map (rewritten vtv) (take k xs)) = k"
      using k by simp
    ultimately show ?thesis
      using k by (simp add: ys_def list_update_append take_Suc_conv_app_nth)
  qed
  have "mount_step vtv a k (hk, tk) =
          (hk[a := (hk ! a)[k := rewritten vtv (hk ! a ! k)]], collected vtv (hk ! a ! k) tk)"
    using assms(1) k by (intro mount_step_pure) (simp_all add: cell len ylen)
  also have "\<dots> = (hk[a := ys[k := rewritten vtv (xs ! k)]], collected vtv (xs ! k) tk)"
    by (simp only: cell elem)
  also have "hk[a := ys[k := rewritten vtv (xs ! k)]]
             = h[a := map (rewritten vtv) (take (Suc k) xs) @ drop (Suc k) xs]"
    by (simp add: hk_def upd)
  also have "collected vtv (xs ! k) tk = fold (collected vtv) (take (Suc k) xs) tc"
    using k by (simp add: tk_def take_Suc_conv_app_nth)
  finally have "mount_step vtv a k (hk, tk) =
      (h[a := map (rewritten vtv) (take (Suc k) xs) @ drop (Suc k) xs],
       fold (collected vtv) (take (Suc k) xs) tc)" .
  then show ?case by (simp add: IH xs_def)
qed

lemma newTaskContainer_pure:
  assumes "VolumeMounts c = Some a" "a < length h"
  shows "newTaskContainer h c volumes =
           (h[a := map (rewritten (volume_index volumes [])) (h ! a)],
            fold (collected (volume_index volumes [])) (h ! a) (new_maps c))"
  using assms fold_mount_step [of a h "length (h ! a)" "volume_index volumes []" "new_maps c"]
  by (simp add: newTaskContainer_def Let_def)

lemma newTaskContainer_nil:
  assumes "VolumeMounts c = None"
  shows "newTaskContainer h c volumes = (h, new_maps c)"
  using assms by (simp add: newTaskContainer_def Let_def)

subsection \<open>Deep copies are fresh\<close>

lemma addrs_simps [simp]:
  "addrs [] = []"
  "addrs (c # cs) = (case VolumeMounts c of None \<Rightarrow> [] | Some a \<Rightarrow> [a]) @ addrs cs"
  "addrs (cs @ ds) = addrs cs @ addrs ds"
  by (simp_all add: addrs_def)

lemma addrs_member: "c \<in> set cs \<Longrightarrow> VolumeMounts c = Some a \<Longrightarrow> a \<in> set (addrs cs)"
  by (induction cs) (auto split: option.splits)

lemma valid_mono: "valid h c \<Longrightarrow> valid (h @ ext) c"
  by (auto simp: valid_def split: option.splits)

lemma load_append: "valid h c \<Longrightarrow> load (h @ ext) (VolumeMounts c) = load h (VolumeMounts c)"
  by (auto simp: valid_def load_def nth_append split: option.splits)

lemma DeepCopy_container_fresh:
  assumes "DeepCopy_container h c = (h', c')" "valid h c"
  shows "\<exists>ext. h' = h @ ext" "strip c' = strip c" "valid h' c'"
    "load h' (VolumeMounts c') = load h (VolumeMounts c)"
    "\<forall>a\<in>set (addrs [c']). length h \<le> a \<and> a < length h'"
  using assms
  by (auto simp: DeepCopy_container_def strip_def valid_def load_def nth_append split: option.splits)

lemma DeepCopy_containers_fresh:
  assumes "DeepCopy_containers h cs = (h', cs')" "\<forall>c\<in>set cs. valid h c"
  shows "(\<exists>ext. h' = h @ ext) \<and> length cs' = length cs \<and>
         (\<forall>i<length cs. strip (cs' ! i) = strip (cs ! i) \<and>
              load h' (VolumeMounts (cs' ! i)) = load h (VolumeMounts (cs ! i))) \<and>
         (\<forall>c\<in>set cs'. valid h' c) \<and>
         (\<forall>a\<in>set (addrs cs'). length h \<le> a \<and> a < length h') \<and>
         distinct (addrs cs')"
  using assms
proof (induction cs arbitrary: h h' cs')
  case Nil
  then show ?case by simp
next
  case (Cons c cs)
  obtain h1 c1 where c1: "DeepCopy_container h c = (h1, c1)" by fastforce
  obtain h2 cs2 where cs2: "DeepCopy_containers h1 cs = (h2, cs2)" by fastforce
  have res: "h' = h2" "cs' = c1 # cs2" using Cons.prems(1) c1 cs2 by simp_all
  have vc: "valid h c" using Cons.prems(2) by simp
  note f = DeepCopy_container_fresh [OF c1 vc]
  from f(1) obtain e1 where e1: "h1 = h @ e1" by blast
  have "\<forall>c\<in>set cs. valid h1 c" using Cons.prems(2) e1 by (auto intro: valid_mono)
  from Cons.IH [OF cs2 this] obtain e2 where e2: "h2 = h1 @ e2"
    and len: "length cs2 = length cs"
    and el: "\<forall>i<length cs. strip (cs2 ! i) = strip (cs ! i) \<and>
              load h2 (VolumeMounts (cs2 ! i)) = load h1 (VolumeMounts (cs ! i))"
    and va: "\<forall>c\<in>set cs2. valid h2 c"
    and fr: "\<forall>a\<in>set (addrs cs2). length h1 \<le> a \<and> a < length h2"
    and di: "distinct (addrs cs2)"
    by blast
  have p1: "\<exists>ext. h' = h @ ext" using e1 e2 res by simp
  have p2: "length cs' = length (c # cs)" using len res by simp
  have p3: "\<forall>i<length (c # cs). strip (cs' ! i) = strip ((c # cs) ! i) \<and>
              load h' (VolumeMounts (cs' ! i)) = load h (VolumeMounts ((c # cs) ! i))"
  proof (intro allI impI)
    fix i assume i: "i < length (c # cs)"
    show "strip (cs' ! i) = strip ((c # cs) ! i) \<and>
              load h' (VolumeMounts (cs' ! i)) = load h (VolumeMounts ((c # cs) ! i))"
    proof (cases i)
      case 0
      have "load h2 (VolumeMounts c1) = load h1 (VolumeMounts c1)"
        using f(3) e2 by (simp add: load_append)
      then show ?thesis using 0 f(2) f(4) res by simp
    next
      case (Suc j)
      then have j: "j < length cs" using i by simp
      have "valid h (cs ! j)" using Cons.prems(2) j by simp
      then have "load h1 (VolumeMounts (cs ! j)) = load h (VolumeMounts (cs ! j))"
        using e1 by (simp add: load_append)
      then show ?thesis using Suc el j res by simp
    qed
  qed
  have p4: "\<forall>c\<in>set cs'. valid h' c"
    using va f(3) e2 res by (auto intro: valid_mono)
  have a1: "\<forall>a\<in>set (addrs [c1]). length h \<le> a \<and> a < length h1" by (rule f(5))
  have p5: "\<forall>a\<in>set (addrs cs'). length h \<le> a \<and> a < length h'"
    using a1 fr e1 e2 res by (auto split: option.splits)
  have p6: "distinct (addrs cs')"
    using a1 fr di res by (auto split: option.splits)
  from p1 p2 p3 p4 p5 p6 show ?case by blast
qed

lemma sideCar_loop_filter:
  "sideCar_loop mainContainer cs acc = acc @ filter (\<lambda>c. Name c \<noteq> Name mainContainer) cs"
  by (induction cs arbitrary: acc) auto

lemma strip_fields:
  assumes "strip c' = strip c"
  shows "Name c' = Name c" "Env c' = Env c" "Image c' = Image c" "Command c' = Command c"
    "Args c' = Args c" "WorkingDir c' = WorkingDir c" "ImagePullPolicy c' = ImagePullPolicy c"
    "Agent c' = Agent c"
proof -
  have "Name (strip c') = Name (strip c)" "Env (strip c') = Env (strip c)"
    "Image (strip c') = Image (strip c)" "Command (strip c') = Command (strip c)"
    "Args (strip c') = Args (strip c)" "WorkingDir (strip c') = WorkingDir (strip c)"
    "ImagePullPolicy (strip c') = ImagePullPolicy (strip c)" "Agent (strip c') = Agent (strip c)"
    by (simp_all only: assms)
  then show "Name c' = Name c" "Env c' = Env c" "Image c' = Image c" "Command c' = Command c"
    "Args c' = Args c" "WorkingDir c' = WorkingDir c" "ImagePullPolicy c' = ImagePullPolicy c"
    "Agent c' = Agent c"
    by (simp_all add: strip_def)
qed

lemma strip_update:
  assumes "strip c' = strip c"
  shows "strip (c'\<lparr>Name := n, Env := e\<rparr>) = strip (c\<lparr>Name := n, Env := e\<rparr>)"
proof -
  have "strip (c'\<lparr>Name := n, Env := e\<rparr>) = (strip c')\<lparr>Name := n, Env := e\<rparr>"
    by (simp add: strip_def)
  also have "\<dots> = (strip c)\<lparr>Name := n, Env := e\<rparr>" by (simp only: assms)
  also have "\<dots> = strip (c\<lparr>Name := n, Env := e\<rparr>)" by (simp add: strip_def)
  finally show ?thesis .
qed

lemma clone_loop_fresh:
  assumes "clone_loop h mainContainer key idx keys acc = (h', out)" "valid h mainContainer"
  shows "(\<exists>ext. h' = h @ ext) \<and>
         (\<exists>cl. out = acc @ cl \<and> length cl = length keys \<and>
            (\<forall>j<length keys.
               strip (cl ! j) = strip (clone_of mainContainer key (idx + int j) (keys ! j)) \<and>
               load h' (VolumeMounts (cl ! j)) = load h (VolumeMounts mainContainer)) \<and>
            (\<forall>c\<in>set cl. valid h' c) \<and>
            (\<forall>a\<in>set (addrs cl). length h \<le> a \<and> a < length h') \<and>
            distinct (addrs cl))"
  using assms
proof (induction keys arbitrary: h idx acc h' out)
  case Nil
  then show ?case by simp
next
  case (Cons k keys)
  obtain h1 c1 where c1: "DeepCopy_container h mainContainer = (h1, c1)" by fastforce
  define c2 where "c2 = c1\<lparr>Name := Name c1 @ Sprint_d (ConcurrentIdx key) @ ''-'' @ Sprint_d idx,
                           Env := Env c1 @ [\<lparr>env_Name = key_Env key, env_Value = k\<rparr>]\<rparr>"
  have rec: "clone_loop h1 mainContainer key (idx + 1) keys (acc @ [c2]) = (h', out)"
    using Cons.prems(1) c1 by (simp add: c2_def Let_def)
  note f = DeepCopy_container_fresh [OF c1 Cons.prems(2)]
  from f(1) obtain e1 where e1: "h1 = h @ e1" by blast
  have vm: "valid h1 mainContainer" using Cons.prems(2) e1 by (auto intro: valid_mono)
  have vm2: "VolumeMounts c2 = VolumeMounts c1" by (simp add: c2_def)
  have nm: "Name c1 = Name mainContainer" "Env c1 = Env mainContainer"
    using strip_fields [OF f(2)] by simp_all
  have s2: "strip c2 = strip (clone_of mainContainer key idx k)"
    unfolding c2_def clone_of_def nm by (rule strip_update [OF f(2)])
  from Cons.IH [OF rec vm] obtain e2 cl where e2: "h' = h1 @ e2"
    and out: "out = (acc @ [c2]) @ cl" and len: "length cl = length keys"
    and el: "\<forall>j<length keys.
               strip (cl ! j) = strip (clone_of mainContainer key (idx + 1 + int j) (keys ! j)) \<and>
               load h' (VolumeMounts (cl ! j)) = load h1 (VolumeMounts mainContainer)"
    and va: "\<forall>c\<in>set cl. valid h' c"
    and fr: "\<forall>a\<in>set (addrs cl). length h1 \<le> a \<and> a < length h'"
    and di: "distinct (addrs cl)"
    by blast
  have v2: "valid h1 c2" using f(3) vm2 by (simp add: valid_def)
  have a2: "\<forall>a\<in>set (addrs [c2]). length h \<le> a \<and> a < length h1"
    using f(5) vm2 by simp
  have l1: "load h1 (VolumeMounts mainContainer) = load h (VolumeMounts mainContainer)"
    using Cons.prems(2) e1 by (simp add: load_append)
  have l2: "load h' (VolumeMounts c2) = load h (VolumeMounts mainContainer)"
    using load_append [OF f(3), of e2] e2 f(4) vm2 by simp
  have p1: "\<exists>ext. h' = h @ ext" using e1 e2 by simp
  have p3: "\<forall>j<length (k # keys).
               strip ((c2 # cl) ! j) = strip (clone_of mainContainer key (idx + int j) ((k # keys) ! j)) \<and>
               load h' (VolumeMounts ((c2 # cl) ! j)) = load h (VolumeMounts mainContainer)"
  proof (intro allI impI)
    fix j assume j: "j < length (k # keys)"
    show "strip ((c2 # cl) ! j) = strip (clone_of mainContainer key (idx + int j) ((k # keys) ! j)) \<and>
               load h' (VolumeMounts ((c2 # cl) ! j)) = load h (VolumeMounts mainContainer)"
    proof (cases j)
      case 0
      then show ?thesis using s2 l2 by simp
    next
      case (Suc j')
      then have "j' < length keys" using j by simp
      moreover have "idx + 1 + int j' = idx + int j" using Suc by simp
      ultimately show ?thesis using el l1 Suc by (simp add: add.assoc)
    qed
  qed
  have p4: "\<forall>c\<in>set (c2 # cl). valid h' c" using va v2 e2 by (auto intro: valid_mono)
  have p5: "\<forall>a\<in>set (addrs (c2 # cl)). length h \<le> a \<and> a < length h'"
    using a2 fr e1 e2 by (auto split: option.splits)
  have p6: "distinct (addrs (c2 # cl))"
    using a2 fr di by (auto split: option.splits)
  have "out = acc @ (c2 # cl) \<and> length (c2 # cl) = length (k # keys)"
    using out len by simp
  with p1 p3 p4 p5 p6 show ?case by blast
qed

subsection \<open>Groups of task containers\<close>

lemma map_get_map_set [simp]: "map_get (map_set k v m) k' = (if k' = k then Some v else map_get m k')"
  by (simp add: map_get_def map_set_def update_conv')

lemma newTaskContainer_valid:
  assumes "valid h c"
  shows "newTaskContainer h c volumes =
           ((case VolumeMounts c of None \<Rightarrow> h
             | Some a \<Rightarrow> h[a := map (rewritten (volume_index volumes [])) (h ! a)]),
            task_of (volume_index volumes []) h c)"
proof (cases "VolumeMounts c")
  case None
  then show ?thesis by (simp add: newTaskContainer_nil task_of_def load_def)
next
  case (Some a)
  then have "a < length h" using assms by (simp add: valid_def)
  then show ?thesis using Some by (simp add: newTaskContainer_pure task_of_def load_def)
qed

lemma task_of_cong:
  "load h' (VolumeMounts c) = load h (VolumeMounts c) \<Longrightarrow> task_of vtv h' c = task_of vtv h c"
  by (simp add: task_of_def)

lemma newTaskContainerGroup_loop_pure:
  assumes "newTaskContainerGroup_loop h volumes cs g = (h', g')"
    and "\<forall>c\<in>set cs. valid h c" and "distinct (addrs cs)"
  shows "length h' = length h \<and>
         (\<forall>a<length h. h' ! a = (if a \<in> set (addrs cs)
                                  then map (rewritten (volume_index volumes [])) (h ! a) else h ! a)) \<and>
         containerMap g' =
           fold (\<lambda>c m. map_set (Name c) (task_of (volume_index volumes []) h c) m) cs (containerMap g)"
  using assms
proof (induction cs arbitrary: h g)
  case Nil
  then show ?case by simp
next
  case (Cons c cs)
  let ?vtv = "volume_index volumes []"
  define h1 where "h1 = (case VolumeMounts c of None \<Rightarrow> h
             | Some a \<Rightarrow> h[a := map (rewritten ?vtv) (h ! a)])"
  define g1 where "g1 = g\<lparr>containerMap := map_set (Name c) (task_of ?vtv h c) (containerMap g)\<rparr>"
  have vc: "valid h c" using Cons.prems(2) by simp
  have step: "newTaskContainer h c volumes = (h1, task_of ?vtv h c)"
    unfolding h1_def by (rule newTaskContainer_valid [OF vc])
  have rec: "newTaskContainerGroup_loop h1 volumes cs g1 = (h', g')"
    using Cons.prems(1) step by (simp add: g1_def)
  have len1: "length h1 = length h" by (simp add: h1_def split: option.splits)
  have v1: "\<forall>c\<in>set cs. valid h1 c"
    using Cons.prems(2) len1 by (simp add: valid_def split: option.splits)
  have d1: "distinct (addrs cs)" using Cons.prems(3) by (auto split: option.splits)
  from Cons.IH [OF rec v1 d1]
  have len: "length h' = length h1"
    and cells: "\<forall>a<length h1. h' ! a = (if a \<in> set (addrs cs)
                                  then map (rewritten ?vtv) (h1 ! a) else h1 ! a)"
    and cm: "containerMap g' =
           fold (\<lambda>c m. map_set (Name c) (task_of ?vtv h1 c) m) cs (containerMap g1)"
    by blast+
  have other: "h1 ! a = h ! a" if "a \<in> set (addrs cs)" for a
  proof (cases "VolumeMounts c")
    case None
    then show ?thesis by (simp add: h1_def)
  next
    case (Some a0)
    then have "a0 \<notin> set (addrs cs)" using Cons.prems(3) by simp
    with that have "a \<noteq> a0" by auto
    then show ?thesis using Some by (simp add: h1_def)
  qed
  have same: "task_of ?vtv h1 c' = task_of ?vtv h c'" if "c' \<in> set cs" for c'
  proof (rule task_of_cong)
    show "load h1 (VolumeMounts c') = load h (VolumeMounts c')"
    proof (cases "VolumeMounts c'")
      case None
      then show ?thesis by (simp add: load_def)
    next
      case (Some a)
      then have "a \<in> set (addrs cs)" using that by (rule addrs_member [rotated])
      then show ?thesis using Some other by (simp add: load_def)
    qed
  qed
  have p1: "length h' = length h" using len len1 by simp
  have p2: "\<forall>a<length h. h' ! a = (if a \<in> set (addrs (c # cs))
                                  then map (rewritten ?vtv) (h ! a) else h ! a)"
  proof (intro allI impI)
    fix a assume a: "a < length h"
    show "h' ! a = (if a \<in> set (addrs (c # cs)) then map (rewritten ?vtv) (h ! a) else h ! a)"
    proof (cases "a \<in> set (addrs cs)")
      case True
      then show ?thesis using cells a len1 other by simp
    next
      case False
      then have "h' ! a = h1 ! a" using cells a len1 by simp
      then show ?thesis using False a by (auto simp: h1_def split: option.splits)
    qed
  qed
  have "fold (\<lambda>c m. map_set (Name c) (task_of ?vtv h1 c) m) cs (containerMap g1)
        = fold (\<lambda>c m. map_set (Name c) (task_of ?vtv h c) m) cs (containerMap g1)"
    by (rule fold_cong) (simp_all add: same)
  then have p3: "containerMap g' =
           fold (\<lambda>c m. map_set (Name c) (task_of ?vtv h c) m) (c # cs) (containerMap g)"
    using cm by (simp add: g1_def)
  from p1 p2 p3 show ?case by blast
qed

lemma map_get_fold_map_set_other:
  "n \<notin> Name ` set cs \<Longrightarrow>
     map_get (fold (\<lambda>c m. map_set (Name c) (f c) m) cs m0) n = map_get m0 n"
  by (induction cs arbitrary: m0) auto

lemma map_get_fold_map_set:
  assumes "distinct (map Name cs)" "c \<in> set cs"
  shows "map_get (fold (\<lambda>c m. map_set (Name c) (f c) m) cs m0) (Name c) = Some (f c)"
  using assms
proof (induction cs arbitrary: m0)
  case Nil
  then show ?case by simp
next
  case (Cons d cs)
  show ?case
  proof (cases "c = d")
    case True
    then have "Name c \<notin> Name ` set cs" using Cons.prems(1) by auto
    then show ?thesis using True by (simp add: map_get_fold_map_set_other)
  next
    case False
    then show ?thesis using Cons by simp
  qed
qed

subsection \<open>The maps of a task container\<close>

lemma set_map_set: "set (map_set k v m) \<subseteq> insert (k, v) (set m)"
  unfolding map_set_def by (induction m) auto

lemma keys_map_set: "fst ` set (map_set k v m) = insert k (fst ` set m)"
  unfolding map_set_def by (simp add: dom_update)

lemma map_get_entry: "map_get m k = Some v \<Longrightarrow> (k, v) \<in> set m"
  unfolding map_get_def by (rule map_of_SomeD)

lemma map_get_None_iff: "map_get m k = None \<longleftrightarrow> k \<notin> fst ` set m"
  unfolding map_get_def by (rule map_of_eq_None_iff)

lemma indexed_map_set: "indexed m \<Longrightarrow> indexed (map_set (vol_Name v) v m)"
  using set_map_set [of "vol_Name v" v m] by (auto simp: indexed_def)

lemma indexed_volume_index: "indexed acc \<Longrightarrow> indexed (volume_index volumes acc)"
  by (induction volumes arbitrary: acc) (simp_all add: indexed_map_set)

lemma volume_of_name:
  assumes "indexed vtv"
  shows "vol_Name (volume_of vtv n) = n \<or> volume_of vtv n = zero_TestJobVolume"
  using assms map_get_entry [of vtv n]
  by (auto simp: volume_of_def indexed_def split: option.splits)

lemma collected_repo:
  "repoNameToOrgMountPath (collected vtv vm tc) =
     (case vol_Repo (volume_of vtv (vm_Name vm)) of
        Some R \<Rightarrow> map_set R (vm_MountPath vm) (repoNameToOrgMountPath tc)
      | None \<Rightarrow> repoNameToOrgMountPath tc)"
  "repoNameToArchiveMountPath (collected vtv vm tc) =
     (case vol_Repo (volume_of vtv (vm_Name vm)) of
        Some R \<Rightarrow> map_set R (filepath_Join [''/'', ''tmp'', ''repo-archive'',
                               vol_Name (volume_of vtv (vm_Name vm))])
                    (repoNameToArchiveMountPath tc)
      | None \<Rightarrow> repoNameToArchiveMountPath tc)"
  by (simp_all add: collected_def mount_step_def Let_def split: option.splits)

lemma collected_podSpecVolumeMap:
  "podSpecVolumeMap (collected vtv vm tc) =
     map_set (vol_Name (volume_of vtv (vm_Name vm))) (pod_volume (volume_of vtv (vm_Name vm)))
       (podSpecVolumeMap tc)"
  by (simp add: collected_def mount_step_def Let_def pod_volume_def staging_path_def
        split: option.splits)

lemma collected_preInitVolumeMountMap:
  "preInitVolumeMountMap (collected vtv vm tc) =
     (case staging_path (volume_of vtv (vm_Name vm)) of
        Some path \<Rightarrow> map_set (vol_Name (volume_of vtv (vm_Name vm)))
                       \<lparr>vm_Name = vol_Name (volume_of vtv (vm_Name vm)), vm_MountPath = path\<rparr>
                       (preInitVolumeMountMap tc)
      | None \<Rightarrow> preInitVolumeMountMap tc)"
  by (simp add: collected_def mount_step_def Let_def staging_path_def split: option.splits)

lemma collected_container: "tc_container (collected vtv vm tc) = tc_container tc"
  by (simp add: collected_def mount_step_def Let_def split: option.splits)

lemma fold_collected_container: "tc_container (fold (collected vtv) ms tc) = tc_container tc"
  by (induction ms arbitrary: tc) (simp_all add: collected_container)

lemma fold_collected_repo_other:
  assumes "\<forall>vm\<in>set ms. repo_of vtv vm \<noteq> Some R"
  shows "map_get (repoNameToOrgMountPath (fold (collected vtv) ms tc)) R
           = map_get (repoNameToOrgMountPath tc) R \<and>
         map_get (repoNameToArchiveMountPath (fold (collected vtv) ms tc)) R
           = map_get (repoNameToArchiveMountPath tc) R"
  using assms
proof (induction ms arbitrary: tc)
  case Nil
  show ?case by simp
next
  case (Cons vm ms)
  have "repo_of vtv vm \<noteq> Some R" using Cons.prems by simp
  then have "map_get (repoNameToOrgMountPath (collected vtv vm tc)) R
           = map_get (repoNameToOrgMountPath tc) R \<and>
         map_get (repoNameToArchiveMountPath (collected vtv vm tc)) R
           = map_get (repoNameToArchiveMountPath tc) R"
    by (auto simp: collected_repo repo_of_def split: option.splits)
  moreover have "\<forall>vm\<in>set ms. repo_of vtv vm \<noteq> Some R" using Cons.prems by simp
  ultimately show ?case using Cons.IH [of "collected vtv vm tc"] by simp
qed

lemma fold_collected_repo_last:
  assumes "repo_of vtv vm = Some R" "\<forall>vm'\<in>set post. repo_of vtv vm' \<noteq> Some R"
  shows "map_get (repoNameToOrgMountPath (fold (collected vtv) (pre @ vm # post) tc)) R
           = Some (vm_MountPath vm) \<and>
         map_get (repoNameToArchiveMountPath (fold (collected vtv) (pre @ vm # post) tc)) R
           = Some (filepath_Join [''/'', ''tmp'', ''repo-archive'',
                                  vol_Name (volume_of vtv (vm_Name vm))])"
proof -
  let ?tc1 = "fold (collected vtv) pre tc"
  have "map_get (repoNameToOrgMountPath (collected vtv vm ?tc1)) R = Some (vm_MountPath vm) \<and>
        map_get (repoNameToArchiveMountPath (collected vtv vm ?tc1)) R
           = Some (filepath_Join [''/'', ''tmp'', ''repo-archive'',
                                  vol_Name (volume_of vtv (vm_Name vm))])"
    using assms(1) by (simp add: collected_repo repo_of_def)
  then show ?thesis
    using fold_collected_repo_other [OF assms(2), of "collected vtv vm ?tc1"] by simp
qed

lemma fold_collected_repo_keys:
  assumes "fst ` set (repoNameToArchiveMountPath tc) = fst ` set (repoNameToOrgMountPath tc)"
  shows "fst ` set (repoNameToArchiveMountPath (fold (collected vtv) ms tc))
           = fst ` set (repoNameToOrgMountPath (fold (collected vtv) ms tc))"
  using assms
proof (induction ms arbitrary: tc)
  case Nil
  then show ?case by simp
next
  case (Cons vm ms)
  have "fst ` set (repoNameToArchiveMountPath (collected vtv vm tc))
           = fst ` set (repoNameToOrgMountPath (collected vtv vm tc))"
    using Cons.prems by (simp add: collected_repo keys_map_set split: option.splits)
  then show ?case using Cons.IH [of "collected vtv vm tc"] by simp
qed

lemma pod_volumes_ok_collected:
  assumes "indexed vtv" "pod_volumes_ok vtv (podSpecVolumeMap tc)"
  shows "pod_volumes_ok vtv (podSpecVolumeMap (collected vtv vm tc))"
proof -
  let ?vol = "volume_of vtv (vm_Name vm)"
  have new: "vol_Name ?vol \<noteq> [] \<longrightarrow> pod_volume ?vol = pod_volume (volume_of vtv (vol_Name ?vol))"
    using volume_of_name [OF assms(1), of "vm_Name vm"]
    by (auto simp: zero_TestJobVolume_def)
  show ?thesis
    unfolding pod_volumes_ok_def collected_podSpecVolumeMap
  proof (intro allI impI)
    fix k v assume kv: "(k, v) \<in> set (map_set (vol_Name ?vol) (pod_volume ?vol) (podSpecVolumeMap tc))"
      and ne: "k \<noteq> []"
    from kv set_map_set have "(k, v) = (vol_Name ?vol, pod_volume ?vol) \<or> (k, v) \<in> set (podSpecVolumeMap tc)"
      by fastforce
    then show "v = pod_volume (volume_of vtv k)"
      using new ne assms(2) by (auto simp: pod_volumes_ok_def)
  qed
qed

lemma pod_volumes_ok_fold:
  assumes "indexed vtv" "pod_volumes_ok vtv (podSpecVolumeMap tc)"
  shows "pod_volumes_ok vtv (podSpecVolumeMap (fold (collected vtv) ms tc))"
  using assms(2)
  by (induction ms arbitrary: tc) (simp_all add: pod_volumes_ok_collected [OF assms(1)])

lemma pod_volume_keys_fold:
  "fst ` set (podSpecVolumeMap (fold (collected vtv) ms tc)) =
     fst ` set (podSpecVolumeMap tc) \<union> (\<lambda>vm. vol_Name (volume_of vtv (vm_Name vm))) ` set ms"
  by (induction ms arbitrary: tc) (auto simp: collected_podSpecVolumeMap keys_map_set)

lemma set_merge: "set (merge ret m) \<subseteq> set ret \<union> set m"
proof (induction m arbitrary: ret)
  case Nil
  show ?case by simp
next
  case (Cons p m)
  obtain k v where p: "p = (k, v)" by (cases p)
  have "set (merge (map_set k v ret) m) \<subseteq> set (map_set k v ret) \<union> set m" by (rule Cons.IH)
  also have "\<dots> \<subseteq> insert (k, v) (set ret) \<union> set m" using set_map_set [of k v ret] by auto
  finally show ?case using p by auto
qed

lemma keys_merge: "fst ` set (merge ret m) = fst ` set ret \<union> fst ` set m"
proof (induction m arbitrary: ret)
  case Nil
  show ?case by simp
next
  case (Cons p m)
  obtain k v where p: "p = (k, v)" by (cases p)
  show ?case using Cons.IH [of "map_set k v ret"] p by (auto simp: keys_map_set)
qed

lemma pod_volumes_ok_merge:
  "pod_volumes_ok vtv ret \<Longrightarrow> pod_volumes_ok vtv m \<Longrightarrow> pod_volumes_ok vtv (merge ret m)"
  using set_merge [of ret m] unfolding pod_volumes_ok_def by blast

lemma group_podSpecVolumeMap_loop_ok:
  assumes "pod_volumes_ok vtv ret" "\<forall>(n, tc)\<in>set cm. pod_volumes_ok vtv (podSpecVolumeMap tc)"
  shows "pod_volumes_ok vtv (group_podSpecVolumeMap_loop cm ret)"
  using assms
proof (induction cm arbitrary: ret)
  case Nil
  then show ?case by simp
next
  case (Cons p cm)
  obtain n tc where p: "p = (n, tc)" by (cases p)
  have "pod_volumes_ok vtv (merge ret (podSpecVolumeMap tc))"
    using Cons.prems p by (intro pod_volumes_ok_merge) auto
  then show ?case using Cons.IH [of "merge ret (podSpecVolumeMap tc)"] Cons.prems(2) p by simp
qed

lemma group_podSpecVolumeMap_loop_keys:
  "fst ` set (group_podSpecVolumeMap_loop cm ret) =
     fst ` set ret \<union> (\<Union>(n, tc)\<in>set cm. fst ` set (podSpecVolumeMap tc))"
proof (induction cm arbitrary: ret)
  case Nil
  show ?case by simp
next
  case (Cons p cm)
  obtain n tc where p: "p = (n, tc)" by (cases p)
  show ?case using Cons.IH [of "merge ret (podSpecVolumeMap tc)"] p by (auto simp: keys_merge)
qed

subsection \<open>Paths of the staging area\<close>

lemma Split_from_char:
  "Split_from [c] piece [] = [piece]"
  "Split_from [c] piece (c # s) = piece # Split_from [c] [] s"
  "c \<noteq> x \<Longrightarrow> Split_from [c] piece (x # s) = Split_from [c] (piece @ [x]) s"
  by (subst Split_from.simps, auto)+

lemma Split_from_no_sep:
  "c \<notin> set s \<Longrightarrow> Split_from [c] piece s = [piece @ s]"
  by (induction s arbitrary: piece) (simp_all add: Split_from_char)

lemma Split_from_element:
  "c \<notin> set s \<Longrightarrow> Split_from [c] piece (s @ c # rest) = (piece @ s) # Split_from [c] [] rest"
  by (induction s arbitrary: piece) (simp_all add: Split_from_char)

lemma Clean_rooted:
  assumes "path \<noteq> []" "hd path = CHR ''/''" "Split_from ''/'' [] path = es"
    "clean_elems True [] es = st"
  shows "Clean path = ''/'' @ Join st ''/''"
  using assms by (simp add: Clean_def Let_def)

lemma repo_archive_path:
  assumes "plain_element V"
  shows "filepath_Join [''/'', ''tmp'', ''repo-archive'', V] = ''/tmp/repo-archive/'' @ V"
proof -
  have V: "V \<noteq> []" "CHR ''/'' \<notin> set V" "V \<noteq> ''.''" "V \<noteq> ''..''"
    using assms by (simp_all add: plain_element_def)
  define path where "path = ''//tmp/repo-archive/'' @ V"
  have sp: "Split_from ''/'' [] path = [[], [], ''tmp'', ''repo-archive'', V]"
    using V(2) by (simp add: path_def Split_from_char Split_from_no_sep)
  have cl: "clean_elems True [] [[], [], ''tmp'', ''repo-archive'', V] = [''tmp'', ''repo-archive'', V]"
    using V by simp
  have "Clean path = ''/'' @ Join [''tmp'', ''repo-archive'', V] ''/''"
    by (rule Clean_rooted [OF _ _ sp cl]) (simp_all add: path_def)
  then have "Clean path = ''/tmp/repo-archive/'' @ V" by simp
  moreover have "filepath_Join [''/'', ''tmp'', ''repo-archive'', V] = Clean path"
    by (simp add: filepath_Join_def path_def)
  ultimately show ?thesis by simp
qed

lemma repo_archive_file:
  assumes "plain_element V"
  shows "filepath_Join [''/tmp/repo-archive/'' @ V, ''repo.tar.gz'']
           = ''/tmp/repo-archive/'' @ V @ ''/repo.tar.gz''"
proof -
  have V: "V \<noteq> []" "CHR ''/'' \<notin> set V" "V \<noteq> ''.''" "V \<noteq> ''..''"
    using assms by (simp_all add: plain_element_def)
  define path where "path = ''/tmp/repo-archive/'' @ V @ ''/repo.tar.gz''"
  have "Split_from ''/'' [] path
          = [] # ''tmp'' # ''repo-archive'' # Split_from ''/'' [] (V @ ''/repo.tar.gz'')"
    by (simp add: path_def Split_from_char)
  also have "Split_from ''/'' [] (V @ ''/repo.tar.gz'') = ([] @ V) # Split_from ''/'' [] ''repo.tar.gz''"
    using V(2) Split_from_element [of "CHR ''/''" V "[]" "''repo.tar.gz''"] by simp
  also have "Split_from ''/'' [] ''repo.tar.gz'' = [''repo.tar.gz'']"
    by (simp add: Split_from_char)
  finally have sp: "Split_from ''/'' [] path = [[], ''tmp'', ''repo-archive'', V, ''repo.tar.gz'']"
    by simp
  have cl: "clean_elems True [] [[], ''tmp'', ''repo-archive'', V, ''repo.tar.gz'']
            = [''tmp'', ''repo-archive'', V, ''repo.tar.gz'']"
    using V by simp
  have "Clean path = ''/'' @ Join [''tmp'', ''repo-archive'', V, ''repo.tar.gz''] ''/''"
    by (rule Clean_rooted [OF _ _ sp cl]) (simp_all add: path_def)
  then have "Clean path = ''/tmp/repo-archive/'' @ V @ ''/repo.tar.gz''" by simp
  moreover have "filepath_Join [''/tmp/repo-archive/'' @ V, ''repo.tar.gz''] = Clean path"
    by (simp add: filepath_Join_def path_def)
  ultimately show ?thesis by simp
qed

lemma mountRepository_loop_ok:
  assumes "\<forall>cmd. snd (PrepareCommand cmd) = None"
    and "fst ` set entries \<subseteq> fst ` set (repoNameToOrgMountPath tc)"
  shows "mountRepository_loop PrepareCommand tc entries issued =
           (issued @ map (\<lambda>(R, ap). repository_command (the (map_get (repoNameToOrgMountPath tc) R)) ap)
                       entries, None)"
  using assms(2)
proof (induction entries arbitrary: issued)
  case Nil
  show ?case by simp
next
  case (Cons p entries)
  obtain R ap where p: "p = (R, ap)" by (cases p)
  have "R \<in> fst ` set (repoNameToOrgMountPath tc)" using Cons.prems p by auto
  then obtain org where org: "map_get (repoNameToOrgMountPath tc) R = Some org"
    using map_get_None_iff [of "repoNameToOrgMountPath tc" R] by (cases "map_get (repoNameToOrgMountPath tc) R") auto
  obtain out where out: "PrepareCommand (repository_command org ap) = (out, None)"
    using assms(1) by (metis prod.collapse)
  have "fst ` set entries \<subseteq> fst ` set (repoNameToOrgMountPath tc)" using Cons.prems by auto
  from Cons.IH [OF this] show ?case using p org out by (simp add: Let_def)
qed

subsection \<open>The expanded specification\<close>

lemma copy_of_mono: "copy_of h hx c src \<Longrightarrow> copy_of h (hx @ ext) c src"
  by (auto simp: copy_of_def valid_mono load_append)

lemma list_all2_copy_of_mono:
  "list_all2 (copy_of h hx) cs srcs \<Longrightarrow> list_all2 (copy_of h (hx @ ext)) cs srcs"
  by (erule list_all2_mono) (erule copy_of_mono)

lemma DeepCopy_containers_copy_of:
  assumes "DeepCopy_containers h cs = (h', cs')" "\<forall>c\<in>set cs. valid h c"
  shows "(\<exists>ext. h' = h @ ext) \<and> list_all2 (copy_of h h') cs' cs \<and>
         (\<forall>a\<in>set (addrs cs'). length h \<le> a \<and> a < length h') \<and> distinct (addrs cs')"
proof -
  note f = DeepCopy_containers_fresh [OF assms]
  have len: "length cs' = length cs" using f by blast
  have "list_all2 (copy_of h h') cs' cs"
    unfolding list_all2_conv_all_nth
  proof (intro conjI allI impI)
    show "length cs' = length cs" by (rule len)
    fix i assume "i < length cs'"
    then have i: "i < length cs" using len by simp
    then have "strip (cs' ! i) = strip (cs ! i)"
      "load h' (VolumeMounts (cs' ! i)) = load h (VolumeMounts (cs ! i))"
      using f by blast+
    moreover have "valid h' (cs' ! i)" using f i len by simp
    ultimately show "copy_of h h' (cs' ! i) (cs ! i)" by (simp add: copy_of_def)
  qed
  moreover have "\<exists>ext. h' = h @ ext" using f by blast
  moreover have "\<forall>a\<in>set (addrs cs'). length h \<le> a \<and> a < length h'" using f by blast
  moreover have "distinct (addrs cs')" using f by blast
  ultimately show ?thesis by blast
qed

lemma addrs_filter_subset: "set (addrs (filter P cs)) \<subseteq> set (addrs cs)"
  by (induction cs) (auto split: option.splits)

lemma distinct_addrs_filter: "distinct (addrs cs) \<Longrightarrow> distinct (addrs (filter P cs))"
proof (induction cs)
  case Nil
  then show ?case by simp
next
  case (Cons c cs)
  then show ?case using addrs_filter_subset [of P cs] by (auto split: option.splits)
qed

lemma list_all2_filter_names:
  assumes "list_all2 (copy_of h hx) cs srcs"
  shows "list_all2 (copy_of h hx) (filter (\<lambda>c. Name c \<noteq> n) cs) (filter (\<lambda>c. Name c \<noteq> n) srcs)"
  using assms
proof (induction rule: list_all2_induct)
  case Nil
  show ?case by simp
next
  case (Cons c cs s srcs)
  have "strip c = strip s" using Cons.hyps(1) by (simp add: copy_of_def)
  then have nm: "Name c = Name s" by (rule strip_fields(1))
  show ?case
  proof (cases "Name s = n")
    case True
    then show ?thesis using nm Cons.IH by simp
  next
    case False
    then show ?thesis using nm Cons.IH Cons.hyps(1) by simp
  qed
qed

lemma DeepCopy_spec_copy_of:
  assumes "DeepCopy_spec h spec = (h1, spec1)"
    and "\<forall>c\<in>set (InitContainers spec). valid h c" "\<forall>c\<in>set (Containers spec). valid h c"
      "valid h (FinalizerContainer spec)"
  shows "(\<exists>ext. h1 = h @ ext) \<and>
         Volumes spec1 = Volumes spec \<and> spec_PodSpec spec1 = spec_PodSpec spec \<and>
         list_all2 (copy_of h h1) (InitContainers spec1) (InitContainers spec) \<and>
         list_all2 (copy_of h h1) (Containers spec1) (Containers spec) \<and>
         copy_of h h1 (FinalizerContainer spec1) (FinalizerContainer spec) \<and>
         (\<forall>a\<in>set (addrs (InitContainers spec1 @ Containers spec1 @ [FinalizerContainer spec1])).
            length h \<le> a \<and> a < length h1) \<and>
         distinct (addrs (InitContainers spec1 @ Containers spec1 @ [FinalizerContainer spec1]))"
proof -
  obtain ha inits where i: "DeepCopy_containers h (InitContainers spec) = (ha, inits)" by fastforce
  obtain hb conts where c: "DeepCopy_containers ha (Containers spec) = (hb, conts)" by fastforce
  obtain hc fin where f: "DeepCopy_container hb (FinalizerContainer spec) = (hc, fin)" by fastforce
  have res: "h1 = hc" "spec1 = spec\<lparr>InitContainers := inits, Containers := conts, FinalizerContainer := fin\<rparr>"
    using assms(1) i c f by (simp_all add: DeepCopy_spec_def)
  from DeepCopy_containers_copy_of [OF i assms(2)] obtain ea where ea: "ha = h @ ea"
    and ci: "list_all2 (copy_of h ha) inits (InitContainers spec)"
    and ri: "\<forall>a\<in>set (addrs inits). length h \<le> a \<and> a < length ha"
    and di: "distinct (addrs inits)" by blast
  have vc: "\<forall>c\<in>set (Containers spec). valid ha c" using assms(3) ea by (auto intro: valid_mono)
  from DeepCopy_containers_copy_of [OF c vc] obtain eb where eb: "hb = ha @ eb"
    and cc0: "list_all2 (copy_of ha hb) conts (Containers spec)"
    and rc: "\<forall>a\<in>set (addrs conts). length ha \<le> a \<and> a < length hb"
    and dc: "distinct (addrs conts)" by blast
  have vf: "valid hb (FinalizerContainer spec)" using assms(4) ea eb by (auto intro: valid_mono)
  note ff = DeepCopy_container_fresh [OF f vf]
  from ff(1) obtain ec where ec: "hc = hb @ ec" by blast
  have cc: "list_all2 (copy_of h hb) conts (Containers spec)"
    unfolding list_all2_conv_all_nth
  proof (intro conjI allI impI)
    show len: "length conts = length (Containers spec)" using cc0 by (rule list_all2_lengthD)
    fix i assume "i < length conts"
    then have i: "i < length (Containers spec)" using len by simp
    have "copy_of ha hb (conts ! i) (Containers spec ! i)"
      using cc0 i by (simp add: list_all2_conv_all_nth)
    moreover have "valid h (Containers spec ! i)" using assms(3) i by simp
    ultimately show "copy_of h hb (conts ! i) (Containers spec ! i)"
      using ea by (simp add: copy_of_def load_append)
  qed
  have lf: "load hb (VolumeMounts (FinalizerContainer spec)) = load h (VolumeMounts (FinalizerContainer spec))"
    using load_append [OF assms(4), of "ea @ eb"] ea eb by simp
  have cf: "copy_of h hc fin (FinalizerContainer spec)"
    using ff(2) ff(3) ff(4) lf by (simp add: copy_of_def)
  have le: "length h \<le> length ha" "length ha \<le> length hb" "length hb \<le> length hc"
    using ea eb ec by simp_all
  have rf: "\<forall>a\<in>set (addrs [fin]). length hb \<le> a \<and> a < length hc" by (rule ff(5))
  have df: "distinct (addrs [fin])" by (simp split: option.splits)
  have p1: "\<exists>ext. h1 = h @ ext" using ea eb ec res by simp
  have p2: "list_all2 (copy_of h h1) (InitContainers spec1) (InitContainers spec)"
    using list_all2_copy_of_mono [OF ci, of "eb @ ec"] ea eb ec res by simp
  have p3: "list_all2 (copy_of h h1) (Containers spec1) (Containers spec)"
    using list_all2_copy_of_mono [OF cc, of ec] eb ec res by simp
  have p4: "copy_of h h1 (FinalizerContainer spec1) (FinalizerContainer spec)"
    using cf res by simp
  have split: "addrs (InitContainers spec1 @ Containers spec1 @ [FinalizerContainer spec1])
               = addrs inits @ addrs conts @ addrs [fin]"
    using res by simp
  have p5: "\<forall>a\<in>set (addrs (InitContainers spec1 @ Containers spec1 @ [FinalizerContainer spec1])).
            length h \<le> a \<and> a < length h1"
    unfolding split res(1)
  proof
    fix a assume "a \<in> set (addrs inits @ addrs conts @ addrs [fin])"
    then consider "a \<in> set (addrs inits)" | "a \<in> set (addrs conts)" | "a \<in> set (addrs [fin])"
      by auto
    then show "length h \<le> a \<and> a < length hc"
    proof cases
      case 1 then show ?thesis using ri le by force
    next
      case 2 then show ?thesis using rc le by force
    next
      case 3 then show ?thesis using rf le by force
    qed
  qed
  have dj1: "set (addrs inits) \<inter> set (addrs conts) = {}" using ri rc by force
  have dj2: "set (addrs inits) \<inter> set (addrs [fin]) = {}" using ri rf le by force
  have dj3: "set (addrs conts) \<inter> set (addrs [fin]) = {}" using rc rf by force
  have p6: "distinct (addrs (InitContainers spec1 @ Containers spec1 @ [FinalizerContainer spec1]))"
    unfolding split using di dc df dj1 dj2 dj3 by (simp only: distinct_append set_append) blast
  have p7: "Volumes spec1 = Volumes spec \<and> spec_PodSpec spec1 = spec_PodSpec spec"
    using res by simp
  from p1 p2 p3 p4 p5 p6 p7 show ?thesis by blast
qed

lemma VolumeMounts_clone_of [simp]: "VolumeMounts (clone_of m key idx k) = VolumeMounts m"
  by (simp add: clone_of_def)

lemma expanded_spec:
  assumes dc: "DeepCopy_spec h spec = (h1, spec1)"
    and ac: "addContainersByStrategyKey h1 spec1 mainContainer strategyKey = (h2, spec2)"
    and v: "\<forall>c\<in>set (InitContainers spec). valid h c" "\<forall>c\<in>set (Containers spec). valid h c"
      "valid h (FinalizerContainer spec)" "valid h mainContainer"
  shows "Volumes spec2 = Volumes spec \<and> spec_PodSpec spec2 = spec_PodSpec spec \<and>
         list_all2 (copy_of h h2) (InitContainers spec2) (InitContainers spec) \<and>
         list_all2 (copy_of h h2) (Containers spec2) (expected_containers mainContainer spec strategyKey) \<and>
         copy_of h h2 (FinalizerContainer spec2) (FinalizerContainer spec) \<and>
         distinct (addrs (InitContainers spec2 @ Containers spec2 @ [FinalizerContainer spec2]))"
proof -
  from DeepCopy_spec_copy_of [OF dc v(1,2,3)] obtain e1 where e1: "h1 = h @ e1"
    and vol: "Volumes spec1 = Volumes spec" "spec_PodSpec spec1 = spec_PodSpec spec"
    and ci: "list_all2 (copy_of h h1) (InitContainers spec1) (InitContainers spec)"
    and cc: "list_all2 (copy_of h h1) (Containers spec1) (Containers spec)"
    and cf: "copy_of h h1 (FinalizerContainer spec1) (FinalizerContainer spec)"
    and r1: "\<forall>a\<in>set (addrs (InitContainers spec1 @ Containers spec1 @ [FinalizerContainer spec1])).
            length h \<le> a \<and> a < length h1"
    and d1: "distinct (addrs (InitContainers spec1 @ Containers spec1 @ [FinalizerContainer spec1]))"
    by blast
  show ?thesis
  proof (cases strategyKey)
    case None
    then have "h2 = h1" "spec2 = spec1" using ac by (simp_all add: addContainersByStrategyKey_def)
    then show ?thesis using vol ci cc cf d1 None by (simp add: expected_containers_def)
  next
    case (Some key)
    obtain h' cl where cl: "clone_loop h1 mainContainer key 0 (Keys key) [] = (h', cl)" by fastforce
    let ?sc = "filter (\<lambda>c. Name c \<noteq> Name mainContainer) (Containers spec1)"
    have res: "h2 = h'" "spec2 = spec1\<lparr>Containers := ?sc @ cl\<rparr>"
      using ac Some cl by (simp_all add: addContainersByStrategyKey_def sideCar_loop_filter)
    have vm1: "valid h1 mainContainer" using v(4) e1 by (auto intro: valid_mono)
    from clone_loop_fresh [OF cl vm1] obtain e2 where e2: "h' = h1 @ e2"
      and len: "length cl = length (Keys key)"
      and el: "\<forall>j<length (Keys key).
               strip (cl ! j) = strip (clone_of mainContainer key (0 + int j) (Keys key ! j)) \<and>
               load h' (VolumeMounts (cl ! j)) = load h1 (VolumeMounts mainContainer)"
      and va: "\<forall>c\<in>set cl. valid h' c"
      and fr: "\<forall>a\<in>set (addrs cl). length h1 \<le> a \<and> a < length h'"
      and di: "distinct (addrs cl)"
      by auto
    have lm: "load h1 (VolumeMounts mainContainer) = load h (VolumeMounts mainContainer)"
      using v(4) e1 by (simp add: load_append)
    have clones: "list_all2 (copy_of h h')  cl
                    (map (\<lambda>j. clone_of mainContainer key (int j) (Keys key ! j)) [0..<length (Keys key)])"
      unfolding list_all2_conv_all_nth
    proof (intro conjI allI impI)
      show "length cl = length (map (\<lambda>j. clone_of mainContainer key (int j) (Keys key ! j))
                                   [0..<length (Keys key)])" using len by simp
      fix j assume "j < length cl"
      then have j: "j < length (Keys key)" using len by simp
      then have "strip (cl ! j) = strip (clone_of mainContainer key (int j) (Keys key ! j))"
        "load h' (VolumeMounts (cl ! j)) = load h (VolumeMounts mainContainer)"
        using el lm by simp_all
      moreover have "valid h' (cl ! j)" using va j len by simp
      ultimately show "copy_of h h' (cl ! j)
          (map (\<lambda>j. clone_of mainContainer key (int j) (Keys key ! j)) [0..<length (Keys key)] ! j)"
        using j by (simp add: copy_of_def)
    qed
    have side: "list_all2 (copy_of h h') ?sc
                  (filter (\<lambda>c. Name c \<noteq> Name mainContainer) (Containers spec))"
      using list_all2_copy_of_mono [OF list_all2_filter_names [OF cc], of e2] e2 by simp
    have p3: "list_all2 (copy_of h h2) (Containers spec2)
                (expected_containers mainContainer spec strategyKey)"
      unfolding expected_containers_def Some res
      using side clones by (simp add: list_all2_appendI)
    have p2: "list_all2 (copy_of h h2) (InitContainers spec2) (InitContainers spec)"
      using list_all2_copy_of_mono [OF ci, of e2] e2 res by simp
    have p4: "copy_of h h2 (FinalizerContainer spec2) (FinalizerContainer spec)"
      using copy_of_mono [OF cf, of e2] e2 res by simp
    have ri: "\<forall>a\<in>set (addrs (InitContainers spec1)). a < length h1"
      and rs: "\<forall>a\<in>set (addrs ?sc). a < length h1"
      and rf: "\<forall>a\<in>set (addrs [FinalizerContainer spec1]). a < length h1"
      using r1 addrs_filter_subset [of "\<lambda>c. Name c \<noteq> Name mainContainer" "Containers spec1"]
      by auto
    have di1: "distinct (addrs (InitContainers spec1))" and ds: "distinct (addrs ?sc)"
      and df: "distinct (addrs [FinalizerContainer spec1])"
      and dj1: "set (addrs (InitContainers spec1)) \<inter> set (addrs ?sc) = {}"
      and dj2: "set (addrs (InitContainers spec1)) \<inter> set (addrs [FinalizerContainer spec1]) = {}"
      and dj3: "set (addrs ?sc) \<inter> set (addrs [FinalizerContainer spec1]) = {}"
      using d1 distinct_addrs_filter [of "Containers spec1" "\<lambda>c. Name c \<noteq> Name mainContainer"]
        addrs_filter_subset [of "\<lambda>c. Name c \<noteq> Name mainContainer" "Containers spec1"]
      by (auto simp only: addrs_simps distinct_append set_append)
    have dj4: "set (addrs (InitContainers spec1)) \<inter> set (addrs cl) = {}"
      "set (addrs ?sc) \<inter> set (addrs cl) = {}"
      "set (addrs cl) \<inter> set (addrs [FinalizerContainer spec1]) = {}"
      using ri rs rf fr by force+
    have split: "addrs (InitContainers spec2 @ Containers spec2 @ [FinalizerContainer spec2])
                 = addrs (InitContainers spec1) @ (addrs ?sc @ addrs cl) @ addrs [FinalizerContainer spec1]"
      using res by simp
    have p5: "distinct (addrs (InitContainers spec2 @ Containers spec2 @ [FinalizerContainer spec2]))"
      unfolding split using di1 ds df di dj1 dj2 dj3 dj4
      by (simp only: distinct_append set_append) blast
    from vol p2 p3 p4 p5 res show ?thesis by simp
  qed
qed

subsection \<open>The stages of buildJob\<close>

lemma buildJob_stages:
  assumes "buildJob b h mainContainer tmpl strategyKey = (hf, Inr job)"
  obtains h1 spec1 h2 spec2 h3 gi h4 gc h5 gf where
    "DeepCopy_spec h (tmpl_Spec tmpl) = (h1, spec1)"
    "addContainersByStrategyKey h1 spec1 mainContainer strategyKey = (h2, spec2)"
    "newTaskContainerGroup h2 (InitContainers spec2) (Volumes spec2) = (h3, gi)"
    "newTaskContainerGroup h3 (Containers spec2) (Volumes spec2) = (h4, gc)"
    "newTaskContainerGroup h4 [FinalizerContainer spec2] (Volumes spec2) = (h5, gf)"
    "job_buildCtx job = \<lparr>ctx_initContainers = gi, ctx_containers = gc,
                          ctx_finalizerContainers = gf, ctx_spec = spec2\<rparr>"
    "job_podSpec job = podSpec (job_buildCtx job)"
    "job_preInit job = (if needsToPreInit (job_buildCtx job)
                        then Some (snd (preInitContainer h5 (job_buildCtx job))) else None)"
    "\<exists>ext. hf = h5 @ ext"
    "job_finalizer job = (if Name (FinalizerContainer spec2) \<noteq> []
                          then Some (embedded (FinalizerContainer spec2)) else None)"
proof -
  obtain h1 spec1 where s1: "DeepCopy_spec h (tmpl_Spec tmpl) = (h1, spec1)" by fastforce
  obtain h2 spec2 where s2: "addContainersByStrategyKey h1 spec1 mainContainer strategyKey = (h2, spec2)"
    by fastforce
  obtain h3 gi where s3: "newTaskContainerGroup h2 (InitContainers spec2) (Volumes spec2) = (h3, gi)"
    by fastforce
  obtain h4 gc where s4: "newTaskContainerGroup h3 (Containers spec2) (Volumes spec2) = (h4, gc)"
    by fastforce
  obtain h5 gf where s5: "newTaskContainerGroup h4 [FinalizerContainer spec2] (Volumes spec2) = (h5, gf)"
    by fastforce
  define ctx where "ctx = \<lparr>ctx_initContainers = gi, ctx_containers = gc,
                          ctx_finalizerContainers = gf, ctx_spec = spec2\<rparr>"
  have r: "(hf, Inr job) =
        (case BuildWithJob_error b of
           Some err \<Rightarrow> (h5, Inl err)
         | None \<Rightarrow>
             if needsToPreInit ctx then
               (case preInitCallback_error b of
                  Some err \<Rightarrow> (h5, Inl err)
                | None \<Rightarrow>
                    (let (h, preInit) = preInitContainer h5 ctx
                     in (h, Inr \<lparr>job_podSpec = podSpec ctx,
                                  job_finalizer = (if Name (FinalizerContainer spec2) \<noteq> []
                                     then Some (embedded (FinalizerContainer spec2)) else None),
                                  job_preInit = Some preInit, job_buildCtx = ctx\<rparr>)))
             else (h5, Inr \<lparr>job_podSpec = podSpec ctx,
                           job_finalizer = (if Name (FinalizerContainer spec2) \<noteq> []
                                     then Some (embedded (FinalizerContainer spec2)) else None),
                           job_preInit = None, job_buildCtx = ctx\<rparr>))"
    using assms unfolding buildJob_def s1 s2 s3 s4 s5 ctx_def Let_def prod.case by simp
  have c: "job_buildCtx job = ctx \<and> job_podSpec job = podSpec ctx \<and>
           job_preInit job = (if needsToPreInit ctx then Some (snd (preInitContainer h5 ctx)) else None) \<and>
           (\<exists>ext. hf = h5 @ ext) \<and>
           job_finalizer job = (if Name (FinalizerContainer spec2) \<noteq> []
                                then Some (embedded (FinalizerContainer spec2)) else None)"
    using r by (auto simp: preInitContainer_def split: option.splits if_splits)
  show ?thesis
    using that [OF s1 s2 s3 s4 s5] c unfolding ctx_def by simp
qed

lemma without_mounts_embedded: "without_mounts (embedded c) = embedded (strip c)"
  by (simp add: without_mounts_def embedded_def strip_def Container.truncate_def)

lemma Name_embedded [simp]: "Name (embedded c) = Name c"
  by (simp add: embedded_def Container.truncate_def)

lemma Name_strip [simp]: "Name (strip c) = Name c"
  by (simp add: strip_def)

lemma DeepCopy_container_strip: "strip (snd (DeepCopy_container h c)) = strip c"
  by (simp add: DeepCopy_container_def strip_def split: option.splits)

lemma DeepCopy_containers_strip: "map strip (snd (DeepCopy_containers h cs)) = map strip cs"
proof (induction cs arbitrary: h)
  case Nil
  show ?case by simp
next
  case (Cons c cs)
  obtain h1 c' where c: "DeepCopy_container h c = (h1, c')" by fastforce
  obtain h2 cs' where cs: "DeepCopy_containers h1 cs = (h2, cs')" by fastforce
  have "strip c' = strip c" using DeepCopy_container_strip [of h c] c by simp
  moreover have "map strip cs' = map strip cs" using Cons.IH [of h1] cs by simp
  ultimately show ?case using c cs by simp
qed

lemma clone_loop_strip:
  "map strip (snd (clone_loop h m key idx keys acc)) =
     map strip acc @ map (\<lambda>j. strip (clone_of m key (idx + int j) (keys ! j))) [0..<length keys]"
proof (induction keys arbitrary: h idx acc)
  case Nil
  show ?case by simp
next
  case (Cons k ks)
  obtain h' c where c: "DeepCopy_container h m = (h', c)" by fastforce
  define c' where "c' = c\<lparr>Name := Name c @ Sprint_d (ConcurrentIdx key) @ ''-'' @ Sprint_d idx,
                          Env := Env c @ [\<lparr>env_Name = key_Env key, env_Value = k\<rparr>]\<rparr>"
  have sc: "strip c = strip m" using DeepCopy_container_strip [of h m] c by simp
  have nm: "Name c = Name m" and en: "Env c = Env m" using sc by (rule strip_fields)+
  have "strip c' = strip (m\<lparr>Name := Name c @ Sprint_d (ConcurrentIdx key) @ ''-'' @ Sprint_d idx,
                          Env := Env c @ [\<lparr>env_Name = key_Env key, env_Value = k\<rparr>]\<rparr>)"
    unfolding c'_def using sc by (rule strip_update)
  then have s: "strip c' = strip (clone_of m key idx k)"
    by (simp add: clone_of_def nm en)
  have step: "clone_loop h m key idx (k # ks) acc = clone_loop h' m key (idx + 1) ks (acc @ [c'])"
    using c by (simp add: c'_def Let_def)
  have sh: "map (\<lambda>j. strip (clone_of m key (idx + int j) ((k # ks) ! j))) [0..<length (k # ks)]
            = strip (clone_of m key idx k) #
              map (\<lambda>j. strip (clone_of m key (idx + 1 + int j) (ks ! j))) [0..<length ks]"
    by (simp add: upt_0_Suc_shift o_def add.assoc del: upt_Suc)
  show ?case
    unfolding step Cons.IH sh using s by simp
qed

lemma map_strip_filter:
  "map strip (filter (\<lambda>c. Name c \<noteq> n) cs) = filter (\<lambda>c. Name c \<noteq> n) (map strip cs)"
  by (induction cs) simp_all

lemma clone_of_name:
  "Name (clone_of m key idx k) \<noteq> Name m" "Name m \<noteq> Name (clone_of m key idx k)"
  by (simp_all add: clone_of_def)

lemma addContainersByStrategyKey_strip:
  assumes "addContainersByStrategyKey h1 spec1 mainContainer (Some key) = (h2, spec2)"
  shows "map strip (Containers spec2) =
           filter (\<lambda>c. Name c \<noteq> Name mainContainer) (map strip (Containers spec1)) @
           map (\<lambda>j. strip (clone_of mainContainer key (int j) (Keys key ! j))) [0..<length (Keys key)]"
proof -
  obtain h' cl where cl: "clone_loop h1 mainContainer key 0 (Keys key) [] = (h', cl)" by fastforce
  have "spec2 = spec1\<lparr>Containers :=
          filter (\<lambda>c. Name c \<noteq> Name mainContainer) (Containers spec1) @ cl\<rparr>"
    using assms cl by (simp add: addContainersByStrategyKey_def sideCar_loop_filter)
  moreover have "map strip cl =
      map (\<lambda>j. strip (clone_of mainContainer key (int j) (Keys key ! j))) [0..<length (Keys key)]"
    using clone_loop_strip [of h1 mainContainer key 0 "Keys key" "[]"] cl by simp
  ultimately show ?thesis by (simp add: map_strip_filter)
qed

lemma DeepCopy_spec_strip:
  assumes "DeepCopy_spec h spec = (h1, spec1)"
  shows "map strip (Containers spec1) = map strip (Containers spec)"
proof -
  obtain ha inits where a: "DeepCopy_containers h (InitContainers spec) = (ha, inits)" by fastforce
  obtain hb conts where b: "DeepCopy_containers ha (Containers spec) = (hb, conts)" by fastforce
  obtain hc fin where c: "DeepCopy_container hb (FinalizerContainer spec) = (hc, fin)" by fastforce
  have "Containers spec1 = conts" using assms a b c by (auto simp: DeepCopy_spec_def)
  then show ?thesis using DeepCopy_containers_strip [of ha "Containers spec"] b by simp
qed

lemma pod_Containers_podSpec: "pod_Containers (podSpec c) = map embedded (Containers (ctx_spec c))"
  by (simp add: podSpec_def Let_def)

lemma pod_InitContainers_podSpec:
  "pod_InitContainers (podSpec c) = map embedded (InitContainers (ctx_spec c))"
  by (simp add: podSpec_def Let_def)

text \<open>
  Claim C6. When \<open>buildJob\<close> returns a job for a strategy key with the keys
  \<open>k0, ..., k(n-1)\<close>, the containers of the pod are, apart from their volume mounts,
  the containers of the template that do not have the name of the main container, in
  their order, followed by \<open>n\<close> clones of the main container. Clone \<open>j\<close> has the name of
  the main container followed by the concurrent index, a dash and \<open>j\<close>, the environment
  of the main container followed by the one variable \<open>Env = kj\<close>, and the other fields
  of the main container. No container of the pod has the name of the main container.
\<close>

theorem buildJob_strategy_key_containers:
  assumes "snd (buildJob b h mainContainer tmpl (Some key)) = Inr job"
  shows "map without_mounts (pod_Containers (job_podSpec job)) =
           map (without_mounts \<circ> embedded)
             (filter (\<lambda>c. Name c \<noteq> Name mainContainer) (Containers (tmpl_Spec tmpl))) @
           map (\<lambda>j. without_mounts (embedded (clone_of mainContainer key (int j) (Keys key ! j))))
             [0..<length (Keys key)] \<and>
         Name mainContainer \<notin> Name ` set (pod_Containers (job_podSpec job))"
proof -
  obtain hf where r: "buildJob b h mainContainer tmpl (Some key) = (hf, Inr job)"
    using assms by (metis prod.collapse)
  from r obtain h1 spec1 h2 spec2 gi gc gf where
    s1: "DeepCopy_spec h (tmpl_Spec tmpl) = (h1, spec1)" and
    s2: "addContainersByStrategyKey h1 spec1 mainContainer (Some key) = (h2, spec2)" and
    ctx: "job_buildCtx job = \<lparr>ctx_initContainers = gi, ctx_containers = gc,
                          ctx_finalizerContainers = gf, ctx_spec = spec2\<rparr>" and
    pod: "job_podSpec job = podSpec (job_buildCtx job)"
    by (rule buildJob_stages)
  have pc: "pod_Containers (job_podSpec job) = map embedded (Containers spec2)"
    by (simp add: pod ctx pod_Containers_podSpec)
  have st: "map strip (Containers spec2) =
           filter (\<lambda>c. Name c \<noteq> Name mainContainer) (map strip (Containers (tmpl_Spec tmpl))) @
           map (\<lambda>j. strip (clone_of mainContainer key (int j) (Keys key ! j))) [0..<length (Keys key)]"
    using addContainersByStrategyKey_strip [OF s2] DeepCopy_spec_strip [OF s1] by simp
  have "map without_mounts (pod_Containers (job_podSpec job)) = map embedded (map strip (Containers spec2))"
    by (simp add: pc without_mounts_embedded)
  also have "\<dots> = map (without_mounts \<circ> embedded)
             (filter (\<lambda>c. Name c \<noteq> Name mainContainer) (Containers (tmpl_Spec tmpl))) @
           map (\<lambda>j. without_mounts (embedded (clone_of mainContainer key (int j) (Keys key ! j))))
             [0..<length (Keys key)]"
    unfolding st by (simp add: without_mounts_embedded map_strip_filter [symmetric])
  finally have first: "map without_mounts (pod_Containers (job_podSpec job)) =
           map (without_mounts \<circ> embedded)
             (filter (\<lambda>c. Name c \<noteq> Name mainContainer) (Containers (tmpl_Spec tmpl))) @
           map (\<lambda>j. without_mounts (embedded (clone_of mainContainer key (int j) (Keys key ! j))))
             [0..<length (Keys key)]" .
  have "Name ` set (pod_Containers (job_podSpec job)) = Name ` set (map strip (Containers spec2))"
    by (simp add: pc image_image)
  also have "Name mainContainer \<notin> \<dots>"
    unfolding st by (auto simp: image_iff clone_of_name)
  finally show ?thesis using first by simp
qed

subsection \<open>The three groups of a build context\<close>

lemma newTaskContainerGroup_pure:
  assumes "newTaskContainerGroup h cs volumes = (h', g)"
    and "\<forall>c\<in>set cs. valid h c" and "distinct (addrs cs)"
  shows "length h' = length h \<and>
         (\<forall>a<length h. h' ! a = (if a \<in> set (addrs cs)
                                  then map (rewritten (volume_index volumes [])) (h ! a) else h ! a)) \<and>
         containerMap g =
           fold (\<lambda>c m. map_set (Name c) (task_of (volume_index volumes []) h c) m) cs []"
  using newTaskContainerGroup_loop_pure [OF assms(1) [unfolded newTaskContainerGroup_def] assms(2,3)]
  by simp

lemma valid_length: "length h' = length h \<Longrightarrow> valid h c \<Longrightarrow> valid h' c"
  by (simp add: valid_def split: option.splits)

lemma load_unchanged:
  assumes "\<forall>a<length h. h' ! a = (if a \<in> set (addrs cs) then f (h ! a) else h ! a)"
    and "valid h c" and "\<forall>a. VolumeMounts c = Some a \<longrightarrow> a \<notin> set (addrs cs)"
  shows "load h' (VolumeMounts c) = load h (VolumeMounts c)"
  using assms by (cases "VolumeMounts c") (auto simp: load_def valid_def)

lemma load_rewritten:
  assumes "\<forall>a<length h. h' ! a = (if a \<in> set (addrs cs) then f (h ! a) else h ! a)"
    and "valid h c" and "c \<in> set cs" and "f [] = []"
  shows "load h' (VolumeMounts c) = f (load h (VolumeMounts c))"
proof (cases "VolumeMounts c")
  case None
  then show ?thesis using assms(4) by (simp add: load_def)
next
  case (Some a)
  then have "a \<in> set (addrs cs)" using assms(3) by (rule addrs_member [rotated])
  moreover have "a < length h" using assms(2) Some by (simp add: valid_def)
  ultimately show ?thesis using assms(1) Some by (simp add: load_def)
qed

lemma groups_stage:
  assumes g1: "newTaskContainerGroup h2 I volumes = (h3, gi)"
    and g2: "newTaskContainerGroup h3 C volumes = (h4, gc)"
    and g3: "newTaskContainerGroup h4 [F] volumes = (h5, gf)"
    and v: "\<forall>c\<in>set (I @ C @ [F]). valid h2 c"
    and d: "distinct (addrs (I @ C @ [F]))"
  shows "length h5 = length h2 \<and>
         (\<forall>c\<in>set (I @ C @ [F]). load h5 (VolumeMounts c) =
             map (rewritten (volume_index volumes [])) (load h2 (VolumeMounts c))) \<and>
         containerMap gi =
           fold (\<lambda>c m. map_set (Name c) (task_of (volume_index volumes []) h2 c) m) I [] \<and>
         containerMap gc =
           fold (\<lambda>c m. map_set (Name c) (task_of (volume_index volumes []) h2 c) m) C [] \<and>
         containerMap gf = [(Name F, task_of (volume_index volumes []) h2 F)]"
proof -
  let ?r = "map (rewritten (volume_index volumes []))"
  let ?t = "task_of (volume_index volumes [])"
  have dI: "distinct (addrs I)" and dC: "distinct (addrs C)" and dF: "distinct (addrs [F])"
    and IC: "set (addrs I) \<inter> set (addrs C) = {}" and IF: "set (addrs I) \<inter> set (addrs [F]) = {}"
    and CF: "set (addrs C) \<inter> set (addrs [F]) = {}"
    using d by (auto simp only: addrs_simps(3) distinct_append set_append)
  have vI: "\<forall>c\<in>set I. valid h2 c" and vC: "\<forall>c\<in>set C. valid h2 c" and vF: "valid h2 F"
    using v by auto
  from newTaskContainerGroup_pure [OF g1 vI dI]
  have l3: "length h3 = length h2"
    and c3: "\<forall>a<length h2. h3 ! a = (if a \<in> set (addrs I) then ?r (h2 ! a) else h2 ! a)"
    and m3: "containerMap gi = fold (\<lambda>c m. map_set (Name c) (?t h2 c) m) I []"
    by blast+
  have vC3: "\<forall>c\<in>set C. valid h3 c" using vC l3 by (auto intro: valid_length)
  from newTaskContainerGroup_pure [OF g2 vC3 dC]
  have l4: "length h4 = length h3"
    and c4: "\<forall>a<length h3. h4 ! a = (if a \<in> set (addrs C) then ?r (h3 ! a) else h3 ! a)"
    and m4: "containerMap gc = fold (\<lambda>c m. map_set (Name c) (?t h3 c) m) C []"
    by blast+
  have vF4: "\<forall>c\<in>set [F]. valid h4 c" using vF l3 l4 by (auto intro: valid_length)
  from newTaskContainerGroup_pure [OF g3 vF4 dF]
  have l5: "length h5 = length h4"
    and c5: "\<forall>a<length h4. h5 ! a = (if a \<in> set (addrs [F]) then ?r (h4 ! a) else h4 ! a)"
    and m5: "containerMap gf = fold (\<lambda>c m. map_set (Name c) (?t h4 c) m) [F] []"
    by blast+
  have cell: "h5 ! a = ?r (h2 ! a)" if "a \<in> set (addrs (I @ C @ [F]))" "a < length h2" for a
  proof -
    have "set (addrs (I @ C @ [F])) = set (addrs I) \<union> (set (addrs C) \<union> set (addrs [F]))"
      by (simp only: addrs_simps(3) set_append)
    then have "a \<in> set (addrs I) \<union> (set (addrs C) \<union> set (addrs [F]))"
      using that(1) by (simp only:)
    then have cases: "a \<in> set (addrs I) \<or> a \<in> set (addrs C) \<or> a \<in> set (addrs [F])"
      by (simp only: Un_iff)
    have e3: "h3 ! a = (if a \<in> set (addrs I) then ?r (h2 ! a) else h2 ! a)"
      by (rule c3 [rule_format]) (rule that(2))
    have e4: "h4 ! a = (if a \<in> set (addrs C) then ?r (h3 ! a) else h3 ! a)"
      by (rule c4 [rule_format]) (simp only: l3 that(2))
    have e5: "h5 ! a = (if a \<in> set (addrs [F]) then ?r (h4 ! a) else h4 ! a)"
      by (rule c5 [rule_format]) (simp only: l3 l4 that(2))
    have r1: "h5 ! a = ?r (h2 ! a)" if 1: "a \<in> set (addrs I)"
    proof -
      have "a \<notin> set (addrs C)" "a \<notin> set (addrs [F])" using 1 IC IF by blast+
      then show ?thesis using 1 e3 e4 e5 by (simp only: if_True if_False)
    qed
    have r2: "h5 ! a = ?r (h2 ! a)" if 2: "a \<in> set (addrs C)"
    proof -
      have "a \<notin> set (addrs I)" "a \<notin> set (addrs [F])" using 2 IC CF by blast+
      then show ?thesis using 2 e3 e4 e5 by (simp only: if_True if_False)
    qed
    have r3: "h5 ! a = ?r (h2 ! a)" if 3: "a \<in> set (addrs [F])"
    proof -
      have "a \<notin> set (addrs I)" "a \<notin> set (addrs C)" using 3 IF CF by blast+
      then show ?thesis using 3 e3 e4 e5 by (simp only: if_True if_False)
    qed
    from cases r1 r2 r3 show ?thesis by blast
  qed
  have p2: "\<forall>c\<in>set (I @ C @ [F]). load h5 (VolumeMounts c) = ?r (load h2 (VolumeMounts c))"
  proof
    fix c assume c: "c \<in> set (I @ C @ [F])"
    show "load h5 (VolumeMounts c) = ?r (load h2 (VolumeMounts c))"
    proof (cases "VolumeMounts c")
      case None
      then show ?thesis by (simp add: load_def)
    next
      case (Some a)
      then have "a \<in> set (addrs (I @ C @ [F]))" using c by (rule addrs_member [rotated])
      moreover have "valid h2 c" using v c by blast
      then have "a < length h2" using Some by (simp add: valid_def)
      ultimately show ?thesis using cell Some by (simp add: load_def)
    qed
  qed
  have sC: "?t h3 c = ?t h2 c" if "c \<in> set C" for c
  proof (rule task_of_cong, rule load_unchanged [OF c3])
    show "valid h2 c" using vC that by simp
    show "\<forall>a. VolumeMounts c = Some a \<longrightarrow> a \<notin> set (addrs I)"
      using IC addrs_member [OF that] by auto
  qed
  have "fold (\<lambda>c m. map_set (Name c) (?t h3 c) m) C [] = fold (\<lambda>c m. map_set (Name c) (?t h2 c) m) C []"
    by (rule fold_cong) (simp_all add: sC)
  then have p4: "containerMap gc = fold (\<lambda>c m. map_set (Name c) (?t h2 c) m) C []"
    using m4 by simp
  have "load h4 (VolumeMounts F) = load h3 (VolumeMounts F)"
  proof (rule load_unchanged [OF c4])
    show "valid h3 F" using vF l3 by (auto intro: valid_length)
    show "\<forall>a. VolumeMounts F = Some a \<longrightarrow> a \<notin> set (addrs C)"
      using CF addrs_member [of F "[F]"] by auto
  qed
  moreover have "load h3 (VolumeMounts F) = load h2 (VolumeMounts F)"
  proof (rule load_unchanged [OF c3])
    show "valid h2 F" using vF .
    show "\<forall>a. VolumeMounts F = Some a \<longrightarrow> a \<notin> set (addrs I)"
      using IF addrs_member [of F "[F]"] by auto
  qed
  ultimately have "?t h4 F = ?t h2 F" by (intro task_of_cong) simp
  then have p5: "containerMap gf = [(Name F, ?t h2 F)]"
    using m5 by (simp add: map_set_def)
  from l3 l4 l5 p2 m3 p4 p5 show ?thesis by simp
qed

lemma volume_index_entries:
  "set (volume_index volumes acc) \<subseteq> set acc \<union> (\<lambda>v. (vol_Name v, v)) ` set volumes"
proof (induction volumes arbitrary: acc)
  case Nil
  show ?case by simp
next
  case (Cons v vs)
  show ?case using Cons.IH [of "map_set (vol_Name v) v acc"] set_map_set [of "vol_Name v" v acc]
    by auto
qed

lemma volume_index_keys:
  "fst ` set (volume_index volumes acc) = fst ` set acc \<union> vol_Name ` set volumes"
proof (induction volumes arbitrary: acc)
  case Nil
  show ?case by simp
next
  case (Cons v vs)
  show ?case unfolding volume_index.simps Cons.IH keys_map_set by auto
qed

lemma volume_of_found:
  assumes "distinct (map vol_Name volumes)" "vol \<in> set volumes"
  shows "volume_of (volume_index volumes []) (vol_Name vol) = vol"
proof -
  have "vol_Name vol \<in> fst ` set (volume_index volumes [])"
    using assms(2) by (simp add: volume_index_keys)
  then obtain v where v: "map_get (volume_index volumes []) (vol_Name vol) = Some v"
    using map_get_None_iff [of "volume_index volumes []" "vol_Name vol"] by (cases "map_get (volume_index volumes []) (vol_Name vol)") auto
  then have "(vol_Name vol, v) \<in> set (volume_index volumes [])" by (rule map_get_entry)
  then have "v \<in> set volumes" "vol_Name v = vol_Name vol"
    using volume_index_entries [of volumes "[]"] by auto
  then have "v = vol" using assms by (auto simp: distinct_map inj_on_def)
  then show ?thesis using v by (simp add: volume_of_def)
qed

lemma volume_of_repo:
  assumes "vol_Repo (volume_of (volume_index volumes []) n) = Some R"
  shows "\<exists>vol\<in>set volumes. vol_Name vol = n \<and> vol_Repo vol = Some R"
proof (cases "map_get (volume_index volumes []) n")
  case None
  then show ?thesis using assms by (simp add: volume_of_def zero_TestJobVolume_def)
next
  case (Some v)
  then have "(n, v) \<in> set (volume_index volumes [])" by (rule map_get_entry)
  then have "v \<in> set volumes" "vol_Name v = n"
    using volume_index_entries [of volumes "[]"] by auto
  then show ?thesis using assms Some by (auto simp: volume_of_def)
qed

lemma fold_map_set_entries:
  "set (fold (\<lambda>c m. map_set (Name c) (f c) m) cs m0) \<subseteq> set m0 \<union> (\<lambda>c. (Name c, f c)) ` set cs"
proof (induction cs arbitrary: m0)
  case Nil
  show ?case by simp
next
  case (Cons c cs)
  show ?case using Cons.IH [of "map_set (Name c) (f c) m0"] set_map_set [of "Name c" "f c" m0]
    by auto
qed

lemma VolumeMounts_embedded [simp]: "VolumeMounts (embedded c) = VolumeMounts c"
  by (simp add: embedded_def Container.truncate_def)

lemma list_all2_copy_of_names:
  "list_all2 (copy_of h hx) cs srcs \<Longrightarrow> map Name cs = map Name srcs"
proof (induction rule: list_all2_induct)
  case Nil
  show ?case by simp
next
  case (Cons c cs s srcs)
  have "strip c = strip s" using Cons.hyps(1) by (simp add: copy_of_def)
  then have "Name c = Name s" by (rule strip_fields(1))
  then show ?case using Cons.IH by simp
qed

lemma list_all2_copy_of_valid:
  "list_all2 (copy_of h hx) cs srcs \<Longrightarrow> \<forall>c\<in>set cs. valid hx c"
  by (induction rule: list_all2_induct) (simp_all add: copy_of_def)

lemma task_pod_volumes_ok:
  assumes "indexed vtv"
  shows "pod_volumes_ok vtv (podSpecVolumeMap (task_of vtv h c))"
  unfolding task_of_def
  by (rule pod_volumes_ok_fold [OF assms]) (simp add: new_maps_def pod_volumes_ok_def)

lemma group_pod_volumes_ok:
  assumes "indexed vtv"
    and "containerMap g = fold (\<lambda>c m. map_set (Name c) (task_of vtv h c) m) cs []"
  shows "pod_volumes_ok vtv (group_podSpecVolumeMap g)"
  unfolding group_podSpecVolumeMap_def
proof (rule group_podSpecVolumeMap_loop_ok)
  show "pod_volumes_ok vtv []" by (simp add: pod_volumes_ok_def)
  show "\<forall>(n, tc)\<in>set (containerMap g). pod_volumes_ok vtv (podSpecVolumeMap tc)"
    using fold_map_set_entries [of "task_of vtv h" cs "[]"] task_pod_volumes_ok [OF assms(1)]
    unfolding assms(2) by auto
qed

lemma group_pod_volume_key:
  assumes "map_get (containerMap g) n = Some tc" "V \<in> fst ` set (podSpecVolumeMap tc)"
  shows "V \<in> fst ` set (group_podSpecVolumeMap g)"
proof -
  have "(n, tc) \<in> set (containerMap g)" using assms(1) by (rule map_get_entry)
  then show ?thesis
    unfolding group_podSpecVolumeMap_def group_podSpecVolumeMap_loop_keys using assms(2) by auto
qed

lemma map_get_volume_index:
  "map_get (volume_index volumes acc) n =
     (case filter (\<lambda>volume. vol_Name volume = n) volumes of
        [] \<Rightarrow> map_get acc n
      | vs \<Rightarrow> Some (last vs))"
proof (induction volumes arbitrary: acc)
  case Nil
  show ?case by simp
next
  case (Cons v vs)
  show ?case
    unfolding volume_index.simps Cons.IH
    by (auto split: list.splits)
qed

lemma volume_of_volume_named: "volume_of (volume_index volumes []) n = volume_named volumes n"
proof -
  have "map_get [] n = (None :: TestJobVolume option)" by (simp add: map_get_def)
  then show ?thesis
    unfolding volume_of_def volume_named_def map_get_volume_index [of volumes "[]" n]
    by (simp split: list.splits)
qed

lemma map_get_fold_map_set_last:
  assumes "i < length cs" "Name (cs ! i) \<notin> Name ` set (drop (Suc i) cs)"
  shows "map_get (fold (\<lambda>c m. map_set (Name c) (f c) m) cs m0) (Name (cs ! i)) = Some (f (cs ! i))"
proof -
  have cs: "cs = take i cs @ cs ! i # drop (Suc i) cs" using assms(1) by (rule id_take_nth_drop)
  define m1 where "m1 = fold (\<lambda>c m. map_set (Name c) (f c) m) (take i cs) m0"
  have "fold (\<lambda>c m. map_set (Name c) (f c) m) cs m0 =
          fold (\<lambda>c m. map_set (Name c) (f c) m) (drop (Suc i) cs)
            (map_set (Name (cs ! i)) (f (cs ! i)) m1)"
    by (subst cs) (simp add: m1_def)
  then show ?thesis
    using map_get_fold_map_set_other [OF assms(2), of f "map_set (Name (cs ! i)) (f (cs ! i)) m1"]
    by simp
qed

subsection \<open>Repository mounts\<close>


subsection \<open>Examples\<close>

lemma sidecar_job_example:
  "pod_summary (buildJob no_calls_fail one_mount_store (user_container ''test'' ''alpine'' (Some 0))
       sidecar_tmpl (Some example_key)) =
     Inr [(''sidecar'', [], []),
          (''test1-0'', [\<lparr>env_Name = ''TEST'', env_Value = ''A''\<rparr>],
             [\<lparr>vm_Name = ''repo-volume'', vm_MountPath = ''/tmp/repo-archive/repo-volume''\<rparr>]),
          (''test1-1'', [\<lparr>env_Name = ''TEST'', env_Value = ''B''\<rparr>],
             [\<lparr>vm_Name = ''repo-volume'', vm_MountPath = ''/tmp/repo-archive/repo-volume''\<rparr>])]"
  by code_simp

lemma sidecar_job_built:
  "\<not> isl (snd (buildJob no_calls_fail one_mount_store (user_container ''test'' ''alpine'' (Some 0))
       sidecar_tmpl (Some example_key)))"
  by code_simp

lemma plain_job_built:
  "\<not> isl (snd (buildJob no_calls_fail one_mount_store (user_container ''test'' ''alpine'' (Some 0))
       sidecar_tmpl None))"
  by code_simp

text \<open>
  Claim C5, at the template in which only the finalizer container (image \<open>busybox\<close>,
  pull policy \<open>IfNotPresent\<close>) mounts a repository volume: the pre-init container is
  added, with the empty image and the empty pull policy. \<open>needsToPreInit\<close> and
  \<open>preInitVolumeMounts\<close> consult the finalizer group; \<open>preInitImage\<close> and
  \<open>preInitImagePullPolicy\<close> consult the init and the main group only. Every group of
  this template holds one container, so the order in which a map is ranged over plays
  no part.
\<close>

theorem buildJob_finalizer_preInit_image:
  "preInit_summary (buildJob no_calls_fail one_mount_store (user_container ''test'' ''alpine'' None)
      finalizer_tmpl None) = Inr (Some ([], [])) \<and>
   Image (FinalizerContainer (tmpl_Spec finalizer_tmpl)) = ''busybox'' \<and>
   ImagePullPolicy (FinalizerContainer (tmpl_Spec finalizer_tmpl)) = ''IfNotPresent'' \<and>
   mounts_of one_mount_store (embedded (FinalizerContainer (tmpl_Spec finalizer_tmpl))) =
     [\<lparr>vm_Name = ''repo-volume'', vm_MountPath = ''/work''\<rparr>] \<and>
   vol_Repo (volume_named (Volumes (tmpl_Spec finalizer_tmpl)) ''repo-volume'') = Some ''repo''"
  by code_simp

lemma buildJob_preInit_example:
  "preInit_summary (buildJob no_calls_fail one_mount_store (user_container ''test'' ''alpine'' (Some 0))
      sidecar_tmpl None) = Inr (Some (''alpine'', ''IfNotPresent''))"
  by code_simp

lemma buildJob_no_preInit_example:
  "preInit_summary (buildJob no_calls_fail [] (user_container ''test'' ''alpine'' None)
      \<lparr>tmpl_Spec = tmpl_Spec finalizer_tmpl\<lparr>FinalizerContainer := no_container\<rparr>\<rparr> None) = Inr None"
  by code_simp

lemma buildJob_finalizer_volumes:
  "volumes_summary (buildJob no_calls_fail one_mount_store (user_container ''test'' ''alpine'' None)
      finalizer_tmpl None) = Inr []"
  by code_simp


theorem buildJob_strategy_key_containers_witness:
  "\<exists>job. snd (buildJob no_calls_fail one_mount_store (user_container ''test'' ''alpine'' (Some 0))
            sidecar_tmpl (Some example_key)) = Inr job \<and>
     map without_mounts (pod_Containers (job_podSpec job)) =
       map (without_mounts \<circ> embedded)
         (filter (\<lambda>c. Name c \<noteq> ''test'') (Containers (tmpl_Spec sidecar_tmpl))) @
       map (\<lambda>j. without_mounts (embedded
                 (clone_of (user_container ''test'' ''alpine'' (Some 0)) example_key (int j)
                    (Keys example_key ! j))))
         [0..<length (Keys example_key)] \<and>
     ''test'' \<notin> Name ` set (pod_Containers (job_podSpec job))"
proof -
  obtain job where built:
    "snd (buildJob no_calls_fail one_mount_store (user_container ''test'' ''alpine'' (Some 0))
            sidecar_tmpl (Some example_key)) = Inr job"
    using sidecar_job_built
    by (cases "snd (buildJob no_calls_fail one_mount_store
                  (user_container ''test'' ''alpine'' (Some 0)) sidecar_tmpl (Some example_key))")
       simp_all
  have n: "Name (user_container ''test'' ''alpine'' (Some 0)) = ''test''"
    by (simp add: user_container_def)
  from buildJob_strategy_key_containers [OF built] built show ?thesis
    unfolding n by blast
qed

lemma finalizer_Mount_example:
  "Mount_summary (buildJob no_calls_fail one_mount_store (user_container ''test'' ''alpine'' None)
      finalizer_tmpl None) ''fin'' False =
     Inr (Some ([[''rm'', ''-rf'', ''/work'', ''&&'', ''mkdir'', ''-p'', ''/work'', ''&&'',
                  ''tar'', ''-zxvf'', ''/tmp/repo-archive/repo-volume/repo.tar.gz'', ''-C'',
                  ''/work'']], None))"
  by code_simp



end
